theory Spec2Isabelle
  imports Complex_Main "HOL-Library.Log_Nat"
begin

section \<open>The mesh codec of \<^verbatim>\<open>utils/mesh_utils.py\<close>\<close>

text \<open>
  The codec converts between coordinates and the Japanese regional mesh code. The source
  computes on NumPy arrays and pandas Series of float64 values and of strings. In this
  development
  \<^item> a float64 is a \<^typ>\<open>real\<close>: the arithmetic is exact, rounding, NaN and the
    infinities are not modelled;
  \<^item> an array or Series is a list, an element-wise operation is a \<open>map\<close>, and
    \<^verbatim>\<open>+\<close> on arrays of strings appends the strings element by element;
  \<^item> a Python exception is the left summand of the result. Every exception the codec
    can raise is a \<^verbatim>\<open>ValueError\<close>.
\<close>

datatype error = ValueError

subsection \<open>Numbers and their decimal strings\<close>

text \<open>\<^verbatim>\<open>astype(int)\<close> on a float array truncates toward zero.\<close>

definition astype_int :: "real \<Rightarrow> int" where
  "astype_int x = (if 0 \<le> x then \<lfloor>x\<rfloor> else \<lceil>x\<rceil>)"

definition digit_char :: "nat \<Rightarrow> char" where
  "digit_char d = char_of (48 + d)"

fun str_nat :: "nat \<Rightarrow> string" where
  "str_nat n = (if n < 10 then [digit_char n] else str_nat (n div 10) @ [digit_char (n mod 10)])"

declare str_nat.simps [simp del]

text \<open>\<^verbatim>\<open>astype(str)\<close> on an integer array, and \<^verbatim>\<open>str\<close> of an integer.\<close>

definition str_int :: "int \<Rightarrow> string" where
  "str_int i = (if i < 0 then CHR ''-'' # str_nat (nat (- i)) else str_nat (nat i))"

text \<open>\<^verbatim>\<open>np.char.zfill\<close> is \<^verbatim>\<open>str.zfill\<close> element by element: zeros go after a leading sign.\<close>

definition zfill :: "string \<Rightarrow> nat \<Rightarrow> string" where
  "zfill s w =
     (if w \<le> length s then s
      else (case s of
              [] \<Rightarrow> replicate w (CHR ''0'')
            | c # r \<Rightarrow>
                if c = CHR ''-'' \<or> c = CHR ''+''
                then c # replicate (w - length s) (CHR ''0'') @ r
                else replicate (w - length s) (CHR ''0'') @ s))"

definition is_digit :: "char \<Rightarrow> bool" where
  "is_digit c = (c \<in> set ''0123456789'')"

definition digit_val :: "char \<Rightarrow> nat" where
  "digit_val c = of_char c - 48"

definition digits_val :: "string \<Rightarrow> nat" where
  "digits_val s = foldl (\<lambda>a c. 10 * a + digit_val c) 0 s"

text \<open>
  Converting a string to a number (\<^verbatim>\<open>astype(float)\<close>, \<^verbatim>\<open>astype(int)\<close> on a Series of
  strings). A non-empty string of decimal digits has its value; the empty string raises
  \<^verbatim>\<open>ValueError\<close>. Python also accepts signs, blanks, exponents and the like: those
  strings are outside this development, which raises on them, and every statement about
  decoding is about strings of digits.
\<close>

definition parse_number :: "string \<Rightarrow> error + nat" where
  "parse_number s = (if s \<noteq> [] \<and> list_all is_digit s then Inr (digits_val s) else Inl ValueError)"

fun astype_num :: "string list \<Rightarrow> error + nat list" where
  "astype_num [] = Inr []"
| "astype_num (s # ss) =
     (case parse_number s of
        Inl e \<Rightarrow> Inl e
      | Inr v \<Rightarrow> (case astype_num ss of Inl e \<Rightarrow> Inl e | Inr vs \<Rightarrow> Inr (v # vs)))"

subsection \<open>Encoding: \<^verbatim>\<open>latlon_to_meshcode\<close>\<close>

text \<open>
  The loop \<^verbatim>\<open>for _ in range(4, level + 1)\<close> of levels 4 and up; the first argument is
  the number of iterations left.
\<close>

fun quadrant_loop :: "nat \<Rightarrow> real \<Rightarrow> real \<Rightarrow> int \<Rightarrow> int \<Rightarrow> string \<Rightarrow> string" where
  "quadrant_loop 0 curr_t_lat curr_t_lon curr_m_lat curr_m_lon mesh_code = mesh_code"
| "quadrant_loop (Suc k) curr_t_lat curr_t_lon curr_m_lat curr_m_lon mesh_code =
     (let rem_lat = curr_t_lat - real_of_int curr_m_lat;
          rem_lon = curr_t_lon - real_of_int curr_m_lon;
          t_lat = rem_lat * 2;
          t_lon = rem_lon * 2;
          m_lat = astype_int t_lat;
          m_lon = astype_int t_lon;
          code = str_int (m_lat * 2 + m_lon + 1)
      in quadrant_loop k t_lat t_lon m_lat m_lon (mesh_code @ code))"

text \<open>
  One element of the batch. The source has no \<^verbatim>\<open>raise\<close> and no check of
  \<^verbatim>\<open>level\<close>: every branch returns a code.
\<close>

definition latlon_to_meshcode :: "real \<Rightarrow> real \<Rightarrow> int \<Rightarrow> error + string" where
  "latlon_to_meshcode lat lon level =
     (let t_lat1 = lat * 1.5;
          t_lon1 = lon - 100.0;
          m1_lat = astype_int t_lat1;
          m1_lon = astype_int t_lon1;
          mesh_code1 = str_int m1_lat @ zfill (str_int m1_lon) 2
      in if level = 1 then Inr mesh_code1
         else
           (let rem_lat1 = t_lat1 - real_of_int m1_lat;
                rem_lon1 = t_lon1 - real_of_int m1_lon;
                t_lat2 = rem_lat1 * 8;
                t_lon2 = rem_lon1 * 8;
                m2_lat = astype_int t_lat2;
                m2_lon = astype_int t_lon2;
                mesh_code2 = mesh_code1 @ str_int m2_lat @ str_int m2_lon
            in if level = 2 then Inr mesh_code2
               else
                 (let rem_lat2 = t_lat2 - real_of_int m2_lat;
                      rem_lon2 = t_lon2 - real_of_int m2_lon;
                      t_lat3 = rem_lat2 * 10;
                      t_lon3 = rem_lon2 * 10;
                      m3_lat = astype_int t_lat3;
                      m3_lon = astype_int t_lon3;
                      mesh_code3 = mesh_code2 @ str_int m3_lat @ str_int m3_lon
                  in if level = 3 then Inr mesh_code3
                     else Inr (quadrant_loop (nat (level + 1 - 4))
                                 t_lat3 t_lon3 m3_lat m3_lon mesh_code3))))"

subsection \<open>Decoding: \<^verbatim>\<open>_meshcode_to_latlon_vectorized\<close>\<close>

text \<open>Python's slice \<^verbatim>\<open>s[a:b]\<close> for \<open>0 \<le> a \<le> b\<close>, and \<^verbatim>\<open>.replace('', '0')\<close> on a Series.\<close>

definition str_slice :: "nat \<Rightarrow> nat \<Rightarrow> string \<Rightarrow> string" where
  "str_slice a b s = take (b - a) (drop a s)"

definition replace_empty :: "string \<Rightarrow> string" where
  "replace_empty s = (if s = [] then ''0'' else s)"

text \<open>\<^verbatim>\<open>np.where(mask, a, b)\<close> on arrays of one length.\<close>

definition np_where :: "bool list \<Rightarrow> 'a list \<Rightarrow> 'a list \<Rightarrow> 'a list" where
  "np_where cond a b = map2 (\<lambda>m (x, y). if m then x else y) cond (zip a b)"

record arrays =
  lat_arr :: "real list"
  lon_arr :: "real list"
  lat_delta :: "real list"
  lon_delta :: "real list"

text \<open>The block of the level-2 digits (characters 5 and 6), run when some code has them.\<close>

definition level2_block :: "string list \<Rightarrow> arrays \<Rightarrow> error + arrays" where
  "level2_block s_code st =
     (let mask2 = map (\<lambda>c. 6 \<le> length c) s_code
      in if \<not> list_ex id mask2 then Inr st
         else
           (let lat_delta' = np_where mask2 (map (\<lambda>d. d / 8.0) (lat_delta st)) (lat_delta st);
                lon_delta' = np_where mask2 (map (\<lambda>d. d / 8.0) (lon_delta st)) (lon_delta st)
            in case astype_num (map (\<lambda>c. replace_empty (str_slice 4 5 c)) s_code) of
                 Inl e \<Rightarrow> Inl e
               | Inr m2_lat \<Rightarrow>
                  (case astype_num (map (\<lambda>c. replace_empty (str_slice 5 6 c)) s_code) of
                     Inl e \<Rightarrow> Inl e
                   | Inr m2_lon \<Rightarrow>
                       Inr \<lparr>lat_arr = map2 (+) (lat_arr st)
                                   (np_where mask2 (map2 (\<lambda>m d. real m * d) m2_lat lat_delta')
                                      (map (\<lambda>_. 0) s_code)),
                            lon_arr = map2 (+) (lon_arr st)
                                   (np_where mask2 (map2 (\<lambda>m d. real m * d) m2_lon lon_delta')
                                      (map (\<lambda>_. 0) s_code)),
                            lat_delta = lat_delta', lon_delta = lon_delta'\<rparr>)))"

text \<open>The block of the level-3 digits (characters 7 and 8).\<close>

definition level3_block :: "string list \<Rightarrow> arrays \<Rightarrow> error + arrays" where
  "level3_block s_code st =
     (let mask3 = map (\<lambda>c. 8 \<le> length c) s_code
      in if \<not> list_ex id mask3 then Inr st
         else
           (let lat_delta' = np_where mask3 (map (\<lambda>d. d / 10.0) (lat_delta st)) (lat_delta st);
                lon_delta' = np_where mask3 (map (\<lambda>d. d / 10.0) (lon_delta st)) (lon_delta st)
            in case astype_num (map (\<lambda>c. replace_empty (str_slice 6 7 c)) s_code) of
                 Inl e \<Rightarrow> Inl e
               | Inr m3_lat \<Rightarrow>
                  (case astype_num (map (\<lambda>c. replace_empty (str_slice 7 8 c)) s_code) of
                     Inl e \<Rightarrow> Inl e
                   | Inr m3_lon \<Rightarrow>
                       Inr \<lparr>lat_arr = map2 (+) (lat_arr st)
                                   (np_where mask3 (map2 (\<lambda>m d. real m * d) m3_lat lat_delta')
                                      (map (\<lambda>_. 0) s_code)),
                            lon_arr = map2 (+) (lon_arr st)
                                   (np_where mask3 (map2 (\<lambda>m d. real m * d) m3_lon lon_delta')
                                      (map (\<lambda>_. 0) s_code)),
                            lat_delta = lat_delta', lon_delta = lon_delta'\<rparr>)))"

text \<open>One iteration of the loop over the characters from index 8 on (levels 4 and up).\<close>

definition quadrant_step :: "string list \<Rightarrow> nat \<Rightarrow> arrays \<Rightarrow> error + arrays" where
  "quadrant_step s_code i st =
     (let mask_i = map (\<lambda>c. i < length c) s_code
      in if \<not> list_ex id mask_i then Inr st
         else
           (let lat_delta' = np_where mask_i (map (\<lambda>d. d / 2.0) (lat_delta st)) (lat_delta st);
                lon_delta' = np_where mask_i (map (\<lambda>d. d / 2.0) (lon_delta st)) (lon_delta st)
            in case astype_num (map (\<lambda>c. replace_empty (str_slice i (i + 1) c)) s_code) of
                 Inl e \<Rightarrow> Inl e
               | Inr code_i \<Rightarrow>
                   Inr \<lparr>lat_arr = map2 (+) (lat_arr st)
                               (np_where (map2 (\<lambda>m d. m \<and> d \<in> {3, 4}) mask_i code_i)
                                  lat_delta' (map (\<lambda>_. 0) s_code)),
                        lon_arr = map2 (+) (lon_arr st)
                               (np_where (map2 (\<lambda>m d. m \<and> d \<in> {2, 4}) mask_i code_i)
                                  lon_delta' (map (\<lambda>_. 0) s_code)),
                        lat_delta = lat_delta', lon_delta = lon_delta'\<rparr>))"

fun quadrant_steps :: "string list \<Rightarrow> nat list \<Rightarrow> arrays \<Rightarrow> error + arrays" where
  "quadrant_steps s_code [] st = Inr st"
| "quadrant_steps s_code (i # is) st =
     (case quadrant_step s_code i st of
        Inl e \<Rightarrow> Inl e
      | Inr st' \<Rightarrow> quadrant_steps s_code is st')"

text \<open>The rows of the returned DataFrame: two columns, or four in \<^verbatim>\<open>bbox\<close> mode.\<close>

datatype coords =
  LatLon real real
  | BBox real real real real

definition mode_output :: "string \<Rightarrow> arrays \<Rightarrow> error + coords list" where
  "mode_output mode st =
     (if mode = ''sw'' then Inr (map2 LatLon (lat_arr st) (lon_arr st))
      else if mode = ''center'' then
        Inr (map2 LatLon (map2 (\<lambda>a d. a + d / 2.0) (lat_arr st) (lat_delta st))
                         (map2 (\<lambda>a d. a + d / 2.0) (lon_arr st) (lon_delta st)))
      else if mode = ''bbox'' then
        Inr (map2 (\<lambda>(a, b) (c, d). BBox a b c d) (zip (lat_arr st) (lon_arr st))
               (zip (map2 (+) (lat_arr st) (lat_delta st)) (map2 (+) (lon_arr st) (lon_delta st))))
      else Inl ValueError)"

text \<open>
  The whole function. The maximum of the lengths of an empty Series is NaN, and
  \<^verbatim>\<open>int(max_len)\<close> raises \<^verbatim>\<open>ValueError\<close> on it.
\<close>

definition meshcode_to_latlon_vectorized :: "string list \<Rightarrow> string \<Rightarrow> error + coords list" where
  "meshcode_to_latlon_vectorized s_code mode =
     (case astype_num (map (str_slice 0 2) s_code) of
        Inl e \<Rightarrow> Inl e
      | Inr i_lat \<Rightarrow>
         (case astype_num (map (str_slice 2 4) s_code) of
            Inl e \<Rightarrow> Inl e
          | Inr i_lon \<Rightarrow>
             (let st0 = \<lparr>lat_arr = map (\<lambda>m. real m * (2.0 / 3.0)) i_lat,
                         lon_arr = map (\<lambda>m. real m + 100.0) i_lon,
                         lat_delta = map (\<lambda>_. 2.0 / 3.0) s_code,
                         lon_delta = map (\<lambda>_. 1.0) s_code\<rparr>
              in case level2_block s_code st0 of
                   Inl e \<Rightarrow> Inl e
                 | Inr st2 \<Rightarrow>
                    (case level3_block s_code st2 of
                       Inl e \<Rightarrow> Inl e
                     | Inr st3 \<Rightarrow>
                        (if s_code = [] then Inl ValueError
                         else
                           (case quadrant_steps s_code [8 ..< Max (set (map length s_code))] st3 of
                              Inl e \<Rightarrow> Inl e
                            | Inr st \<Rightarrow> mode_output mode st))))))"

subsection \<open>The entry point \<^verbatim>\<open>meshcode_to_latlon\<close>\<close>

datatype mesh_code_arg =
  SeriesArg "string list"
  | StrArg string
  | IntArg int

datatype decoded =
  DataFrame "coords list"
  | Dict coords

text \<open>
  A Series, list or array is decoded as a batch; anything else is one code: it is put in
  a Series of length one and the first row of the result is returned as a dictionary.
\<close>

definition meshcode_to_latlon :: "mesh_code_arg \<Rightarrow> string \<Rightarrow> error + decoded" where
  "meshcode_to_latlon mesh_code mode =
     (case mesh_code of
        SeriesArg s_code \<Rightarrow>
          (case meshcode_to_latlon_vectorized s_code mode of
             Inl e \<Rightarrow> Inl e | Inr res \<Rightarrow> Inr (DataFrame res))
      | StrArg s \<Rightarrow>
          (case meshcode_to_latlon_vectorized [s] mode of
             Inl e \<Rightarrow> Inl e | Inr res \<Rightarrow> Inr (Dict (hd res)))
      | IntArg n \<Rightarrow>
          (case meshcode_to_latlon_vectorized [str_int n] mode of
             Inl e \<Rightarrow> Inl e | Inr res \<Rightarrow> Inr (Dict (hd res))))"


subsection \<open>The cell of one code\<close>

text \<open>
  What the vectorized decoder computes for one element of the batch: the south-west
  corner and the two deltas. It is used to reason about the decoder, which is shown to
  compute it for every element of a batch of digit strings.
\<close>

type_synonym cell = "real \<times> real \<times> real \<times> real"

definition code_ok :: "string \<Rightarrow> bool" where
  "code_ok c = (list_all is_digit c \<and> 4 \<le> length c)"

definition valid_mode :: "string \<Rightarrow> bool" where
  "valid_mode mode = (mode = ''sw'' \<or> mode = ''center'' \<or> mode = ''bbox'')"

definition slot :: "nat \<Rightarrow> string \<Rightarrow> nat" where
  "slot i c = digits_val (replace_empty (str_slice i (i + 1) c))"

definition cell_init :: "string \<Rightarrow> cell" where
  "cell_init c = (real (digits_val (str_slice 0 2 c)) * (2 / 3),
                  real (digits_val (str_slice 2 4 c)) + 100, 2 / 3, 1)"

definition cell_sub :: "nat \<Rightarrow> real \<Rightarrow> nat \<Rightarrow> string \<Rightarrow> cell \<Rightarrow> cell" where
  "cell_sub n k i c = (\<lambda>(la, lo, dla, dlo).
     if n \<le> length c
     then (la + real (slot i c) * (dla / k), lo + real (slot (i + 1) c) * (dlo / k),
           dla / k, dlo / k)
     else (la, lo, dla, dlo))"

definition quadrant :: "nat \<Rightarrow> cell \<Rightarrow> cell" where
  "quadrant d = (\<lambda>(la, lo, dla, dlo).
     (la + (if d \<in> {3, 4} then dla / 2 else 0),
      lo + (if d \<in> {2, 4} then dlo / 2 else 0), dla / 2, dlo / 2))"

definition cell_quad :: "string \<Rightarrow> nat \<Rightarrow> cell \<Rightarrow> cell" where
  "cell_quad c i t = (if i < length c then quadrant (slot i c) t else t)"

definition decode_cell :: "string \<Rightarrow> cell" where
  "decode_cell c =
     fold (cell_quad c) [8 ..< length c] (cell_sub 8 10 6 c (cell_sub 6 8 4 c (cell_init c)))"

definition arrays_of :: "(string \<Rightarrow> cell) \<Rightarrow> string list \<Rightarrow> arrays" where
  "arrays_of f cs =
     \<lparr>lat_arr = map (\<lambda>c. fst (f c)) cs, lon_arr = map (\<lambda>c. fst (snd (f c))) cs,
      lat_delta = map (\<lambda>c. fst (snd (snd (f c)))) cs,
      lon_delta = map (\<lambda>c. snd (snd (snd (f c)))) cs\<rparr>"

definition cell_coords :: "string \<Rightarrow> cell \<Rightarrow> coords" where
  "cell_coords mode = (\<lambda>(la, lo, dla, dlo).
     if mode = ''sw'' then LatLon la lo
     else if mode = ''center'' then LatLon (la + dla / 2) (lo + dlo / 2)
     else BBox la lo (la + dla) (lo + dlo))"

text \<open>The digits that the loop of the encoder appends, from the two remainders.\<close>

fun quad_digits :: "nat \<Rightarrow> real \<Rightarrow> real \<Rightarrow> string" where
  "quad_digits 0 r s = []"
| "quad_digits (Suc k) r s =
     str_int (astype_int (r * 2) * 2 + astype_int (s * 2) + 1)
       @ quad_digits k (r * 2 - real_of_int (astype_int (r * 2)))
           (s * 2 - real_of_int (astype_int (s * 2)))"

subsection \<open>The grid of the specification\<close>

text \<open>
  The steps of the grid as the specification gives them: \<open>2/3\<close> and \<open>1\<close> degree at
  level 1, divided by 8 at level 2, by 10 at level 3 and by 2 at each level after that.
\<close>

fun subdivisions :: "nat \<Rightarrow> real" where
  "subdivisions 0 = 1"
| "subdivisions (Suc n) =
     (if n = 0 then 1 else if n = 1 then 8 else if n = 2 then 10 else 2) * subdivisions n"

definition lat_step :: "nat \<Rightarrow> real" where
  "lat_step level = (2 / 3) / subdivisions level"

definition lon_step :: "nat \<Rightarrow> real" where
  "lon_step level = 1 / subdivisions level"

text \<open>The length of a full code: 4, 6, 8 and one more character per level after 3.\<close>

definition code_length :: "nat \<Rightarrow> nat" where
  "code_length level = (if level \<le> 1 then 4 else if level = 2 then 6 else 8 + (level - 3))"

text \<open>
  The cells of a level are the half-open rectangles between consecutive grid lines, the
  lines being the multiples of the step. The cell that contains a point has its
  south-west corner at the grid lines just below the point.
\<close>

definition grid_floor :: "real \<Rightarrow> real \<Rightarrow> real" where
  "grid_floor step x = step * real_of_int \<lfloor>x / step\<rfloor>"

text \<open>
  The coordinates whose level-1 indices have two digits: the latitude index
  \<open>\<lfloor>lat * 1.5\<rfloor>\<close> is in \<open>10..99\<close> and the longitude index \<open>\<lfloor>lon - 100\<rfloor>\<close> in \<open>0..99\<close>.
  Japan lies inside.
\<close>

definition mesh_range :: "real \<Rightarrow> real \<Rightarrow> bool" where
  "mesh_range lat lon = (20 / 3 \<le> lat \<and> lat < 200 / 3 \<and> 100 \<le> lon \<and> lon < 200)"


definition height :: "coords \<Rightarrow> real" where
  "height b = (case b of BBox a b c d \<Rightarrow> c - a | LatLon a b \<Rightarrow> 0)"

definition width :: "coords \<Rightarrow> real" where
  "width b = (case b of BBox a b c d \<Rightarrow> d - b | LatLon a b \<Rightarrow> 0)"

text \<open>The two deltas and the south-west corner of a cell.\<close>

definition deltas :: "cell \<Rightarrow> real \<times> real" where
  "deltas t = (fst (snd (snd t)), snd (snd (snd t)))"


text \<open>
  The code of a point in closed form, from \<open>x = lat * 1.5\<close> and \<open>y = lon - 100\<close>:
  two digits for each level-1 index, one digit for each index of levels 2 and 3.
\<close>

definition two_digits :: "nat \<Rightarrow> string" where
  "two_digits n = [digit_char (n div 10), digit_char (n mod 10)]"

definition sub_digits :: "nat \<Rightarrow> real \<Rightarrow> real \<Rightarrow> string" where
  "sub_digits n r s = [digit_char (nat \<lfloor>real n * r\<rfloor>), digit_char (nat \<lfloor>real n * s\<rfloor>)]"

definition code1 :: "real \<Rightarrow> real \<Rightarrow> string" where
  "code1 x y = two_digits (nat \<lfloor>x\<rfloor>) @ two_digits (nat \<lfloor>y\<rfloor>)"

definition code2 :: "real \<Rightarrow> real \<Rightarrow> string" where
  "code2 x y = code1 x y @ sub_digits 8 (frac x) (frac y)"

definition code3 :: "real \<Rightarrow> real \<Rightarrow> string" where
  "code3 x y = code2 x y @ sub_digits 10 (frac (8 * x)) (frac (8 * y))"


subsection \<open>The codec in float64 arithmetic\<close>

text \<open>
  The same two functions with the rounding of float64 written out: every product,
  quotient, sum and difference of the source is rounded to the nearest number with a
  significand of 53 bits, ties going to the even significand. The exponent is not bounded:
  there is no overflow and there are no subnormal numbers, which the codec does not reach
  (its values lie between \<open>2\<^sup>-\<^sup>6\<^sup>0\<close> and \<open>2\<^sup>8\<close> in size, or are zero). The strings, the
  masks and the errors are those of the definitions above.
\<close>

definition pow2 :: "int \<Rightarrow> real" where
  "pow2 e = (if 0 \<le> e then 2 ^ nat e else 1 / 2 ^ nat (- e))"

text \<open>The exponent of a number that is not zero: \<open>2 ^ expo x \<le> \<bar>x\<bar> < 2 ^ (expo x + 1)\<close>.\<close>

definition expo :: "real \<Rightarrow> int" where
  "expo x = (if 1 \<le> \<bar>x\<bar> then bitlen \<lfloor>\<bar>x\<bar>\<rfloor> - 1 else - bitlen (\<lceil>1 / \<bar>x\<bar>\<rceil> - 1))"

definition round_even :: "real \<Rightarrow> int" where
  "round_even y =
     (let f = \<lfloor>y\<rfloor>; r = y - real_of_int f
      in if r < 1 / 2 then f else if 1 / 2 < r then f + 1 else if even f then f else f + 1)"

definition fl :: "real \<Rightarrow> real" where
  "fl x = (if x = 0 then 0
           else let e = expo x - 52 in real_of_int (round_even (x / pow2 e)) * pow2 e)"

fun quadrant_loop_f64 :: "nat \<Rightarrow> real \<Rightarrow> real \<Rightarrow> int \<Rightarrow> int \<Rightarrow> string \<Rightarrow> string" where
  "quadrant_loop_f64 0 curr_t_lat curr_t_lon curr_m_lat curr_m_lon mesh_code = mesh_code"
| "quadrant_loop_f64 (Suc k) curr_t_lat curr_t_lon curr_m_lat curr_m_lon mesh_code =
     (let rem_lat = fl (curr_t_lat - real_of_int curr_m_lat);
          rem_lon = fl (curr_t_lon - real_of_int curr_m_lon);
          t_lat = fl (rem_lat * 2);
          t_lon = fl (rem_lon * 2);
          m_lat = astype_int t_lat;
          m_lon = astype_int t_lon;
          code = str_int (m_lat * 2 + m_lon + 1)
      in quadrant_loop_f64 k t_lat t_lon m_lat m_lon (mesh_code @ code))"

definition latlon_to_meshcode_f64 :: "real \<Rightarrow> real \<Rightarrow> int \<Rightarrow> error + string" where
  "latlon_to_meshcode_f64 lat lon level =
     (let t_lat1 = fl (lat * 1.5);
          t_lon1 = fl (lon - 100.0);
          m1_lat = astype_int t_lat1;
          m1_lon = astype_int t_lon1;
          mesh_code1 = str_int m1_lat @ zfill (str_int m1_lon) 2
      in if level = 1 then Inr mesh_code1
         else
           (let rem_lat1 = fl (t_lat1 - real_of_int m1_lat);
                rem_lon1 = fl (t_lon1 - real_of_int m1_lon);
                t_lat2 = fl (rem_lat1 * 8);
                t_lon2 = fl (rem_lon1 * 8);
                m2_lat = astype_int t_lat2;
                m2_lon = astype_int t_lon2;
                mesh_code2 = mesh_code1 @ str_int m2_lat @ str_int m2_lon
            in if level = 2 then Inr mesh_code2
               else
                 (let rem_lat2 = fl (t_lat2 - real_of_int m2_lat);
                      rem_lon2 = fl (t_lon2 - real_of_int m2_lon);
                      t_lat3 = fl (rem_lat2 * 10);
                      t_lon3 = fl (rem_lon2 * 10);
                      m3_lat = astype_int t_lat3;
                      m3_lon = astype_int t_lon3;
                      mesh_code3 = mesh_code2 @ str_int m3_lat @ str_int m3_lon
                  in if level = 3 then Inr mesh_code3
                     else Inr (quadrant_loop_f64 (nat (level + 1 - 4))
                                 t_lat3 t_lon3 m3_lat m3_lon mesh_code3))))"

text \<open>The block of level 2 or 3: the deltas are divided by \<open>k\<close>, the digits at \<open>i\<close> and \<open>i + 1\<close> added.\<close>

definition level_block_f64 ::
  "nat \<Rightarrow> real \<Rightarrow> nat \<Rightarrow> string list \<Rightarrow> arrays \<Rightarrow> error + arrays" where
  "level_block_f64 n k i s_code st =
     (let msk = map (\<lambda>c. n \<le> length c) s_code
      in if \<not> list_ex id msk then Inr st
         else
           (let lat_delta' = np_where msk (map (\<lambda>d. fl (d / k)) (lat_delta st)) (lat_delta st);
                lon_delta' = np_where msk (map (\<lambda>d. fl (d / k)) (lon_delta st)) (lon_delta st)
            in case astype_num (map (\<lambda>c. replace_empty (str_slice i (i + 1) c)) s_code) of
                 Inl e \<Rightarrow> Inl e
               | Inr m_lat \<Rightarrow>
                  (case astype_num (map (\<lambda>c. replace_empty (str_slice (i + 1) (i + 2) c)) s_code) of
                     Inl e \<Rightarrow> Inl e
                   | Inr m_lon \<Rightarrow>
                       Inr \<lparr>lat_arr = map2 (\<lambda>a b. fl (a + b)) (lat_arr st)
                                   (np_where msk (map2 (\<lambda>m d. fl (real m * d)) m_lat lat_delta')
                                      (map (\<lambda>_. 0) s_code)),
                            lon_arr = map2 (\<lambda>a b. fl (a + b)) (lon_arr st)
                                   (np_where msk (map2 (\<lambda>m d. fl (real m * d)) m_lon lon_delta')
                                      (map (\<lambda>_. 0) s_code)),
                            lat_delta = lat_delta', lon_delta = lon_delta'\<rparr>)))"

definition quadrant_step_f64 :: "string list \<Rightarrow> nat \<Rightarrow> arrays \<Rightarrow> error + arrays" where
  "quadrant_step_f64 s_code i st =
     (let mask_i = map (\<lambda>c. i < length c) s_code
      in if \<not> list_ex id mask_i then Inr st
         else
           (let lat_delta' = np_where mask_i (map (\<lambda>d. fl (d / 2.0)) (lat_delta st)) (lat_delta st);
                lon_delta' = np_where mask_i (map (\<lambda>d. fl (d / 2.0)) (lon_delta st)) (lon_delta st)
            in case astype_num (map (\<lambda>c. replace_empty (str_slice i (i + 1) c)) s_code) of
                 Inl e \<Rightarrow> Inl e
               | Inr code_i \<Rightarrow>
                   Inr \<lparr>lat_arr = map2 (\<lambda>a b. fl (a + b)) (lat_arr st)
                               (np_where (map2 (\<lambda>m d. m \<and> d \<in> {3, 4}) mask_i code_i)
                                  lat_delta' (map (\<lambda>_. 0) s_code)),
                        lon_arr = map2 (\<lambda>a b. fl (a + b)) (lon_arr st)
                               (np_where (map2 (\<lambda>m d. m \<and> d \<in> {2, 4}) mask_i code_i)
                                  lon_delta' (map (\<lambda>_. 0) s_code)),
                        lat_delta = lat_delta', lon_delta = lon_delta'\<rparr>))"

fun quadrant_steps_f64 :: "string list \<Rightarrow> nat list \<Rightarrow> arrays \<Rightarrow> error + arrays" where
  "quadrant_steps_f64 s_code [] st = Inr st"
| "quadrant_steps_f64 s_code (i # is) st =
     (case quadrant_step_f64 s_code i st of
        Inl e \<Rightarrow> Inl e
      | Inr st' \<Rightarrow> quadrant_steps_f64 s_code is st')"

definition mode_output_f64 :: "string \<Rightarrow> arrays \<Rightarrow> error + coords list" where
  "mode_output_f64 mode st =
     (if mode = ''sw'' then Inr (map2 LatLon (lat_arr st) (lon_arr st))
      else if mode = ''center'' then
        Inr (map2 LatLon (map2 (\<lambda>a d. fl (a + fl (d / 2.0))) (lat_arr st) (lat_delta st))
                         (map2 (\<lambda>a d. fl (a + fl (d / 2.0))) (lon_arr st) (lon_delta st)))
      else if mode = ''bbox'' then
        Inr (map2 (\<lambda>(a, b) (c, d). BBox a b c d) (zip (lat_arr st) (lon_arr st))
               (zip (map2 (\<lambda>a d. fl (a + d)) (lat_arr st) (lat_delta st))
                    (map2 (\<lambda>a d. fl (a + d)) (lon_arr st) (lon_delta st))))
      else Inl ValueError)"

definition meshcode_to_latlon_vectorized_f64 :: "string list \<Rightarrow> string \<Rightarrow> error + coords list" where
  "meshcode_to_latlon_vectorized_f64 s_code mode =
     (case astype_num (map (str_slice 0 2) s_code) of
        Inl e \<Rightarrow> Inl e
      | Inr i_lat \<Rightarrow>
         (case astype_num (map (str_slice 2 4) s_code) of
            Inl e \<Rightarrow> Inl e
          | Inr i_lon \<Rightarrow>
             (let st0 = \<lparr>lat_arr = map (\<lambda>m. fl (real m * fl (2.0 / 3.0))) i_lat,
                         lon_arr = map (\<lambda>m. fl (real m + 100.0)) i_lon,
                         lat_delta = map (\<lambda>_. fl (2.0 / 3.0)) s_code,
                         lon_delta = map (\<lambda>_. 1.0) s_code\<rparr>
              in case level_block_f64 6 8.0 4 s_code st0 of
                   Inl e \<Rightarrow> Inl e
                 | Inr st2 \<Rightarrow>
                    (case level_block_f64 8 10.0 6 s_code st2 of
                       Inl e \<Rightarrow> Inl e
                     | Inr st3 \<Rightarrow>
                        (if s_code = [] then Inl ValueError
                         else
                           (case quadrant_steps_f64 s_code [8 ..< Max (set (map length s_code))] st3 of
                              Inl e \<Rightarrow> Inl e
                            | Inr st \<Rightarrow> mode_output_f64 mode st))))))"

definition meshcode_to_latlon_f64 :: "mesh_code_arg \<Rightarrow> string \<Rightarrow> error + decoded" where
  "meshcode_to_latlon_f64 mesh_code mode =
     (case mesh_code of
        SeriesArg s_code \<Rightarrow>
          (case meshcode_to_latlon_vectorized_f64 s_code mode of
             Inl e \<Rightarrow> Inl e | Inr res \<Rightarrow> Inr (DataFrame res))
      | StrArg s \<Rightarrow>
          (case meshcode_to_latlon_vectorized_f64 [s] mode of
             Inl e \<Rightarrow> Inl e | Inr res \<Rightarrow> Inr (Dict (hd res)))
      | IntArg n \<Rightarrow>
          (case meshcode_to_latlon_vectorized_f64 [str_int n] mode of
             Inl e \<Rightarrow> Inl e | Inr res \<Rightarrow> Inr (Dict (hd res))))"

text \<open>The multiples of \<open>2 ^ g\<close>.\<close>

definition on_grid :: "int \<Rightarrow> real \<Rightarrow> bool" where
  "on_grid g x = (\<exists>m :: int. x = real_of_int m * pow2 g)"

text \<open>What the float64 decoder computes for a single code.\<close>

definition cell_init_f64 :: "string \<Rightarrow> cell" where
  "cell_init_f64 c = (fl (real (digits_val (str_slice 0 2 c)) * fl (2 / 3)),
                      fl (real (digits_val (str_slice 2 4 c)) + 100), fl (2 / 3), 1)"

definition cell_sub_f64 :: "nat \<Rightarrow> real \<Rightarrow> nat \<Rightarrow> string \<Rightarrow> cell \<Rightarrow> cell" where
  "cell_sub_f64 n k i c = (\<lambda>(la, lo, dla, dlo).
     if n \<le> length c
     then (fl (la + fl (real (slot i c) * fl (dla / k))),
           fl (lo + fl (real (slot (i + 1) c) * fl (dlo / k))),
           fl (dla / k), fl (dlo / k))
     else (la, lo, dla, dlo))"

definition quadrant_f64 :: "nat \<Rightarrow> cell \<Rightarrow> cell" where
  "quadrant_f64 d = (\<lambda>(la, lo, dla, dlo).
     (fl (la + (if d \<in> {3, 4} then fl (dla / 2) else 0)),
      fl (lo + (if d \<in> {2, 4} then fl (dlo / 2) else 0)), fl (dla / 2), fl (dlo / 2)))"

definition cell_quad_f64 :: "string \<Rightarrow> nat \<Rightarrow> cell \<Rightarrow> cell" where
  "cell_quad_f64 c i t = (if i < length c then quadrant_f64 (slot i c) t else t)"

definition decode_cell_f64 :: "string \<Rightarrow> cell" where
  "decode_cell_f64 c =
     fold (cell_quad_f64 c) [8 ..< length c]
       (cell_sub_f64 8 10 6 c (cell_sub_f64 6 8 4 c (cell_init_f64 c)))"

definition cell_coords_f64 :: "string \<Rightarrow> cell \<Rightarrow> coords" where
  "cell_coords_f64 mode = (\<lambda>(la, lo, dla, dlo).
     if mode = ''sw'' then LatLon la lo
     else if mode = ''center'' then LatLon (fl (la + fl (dla / 2))) (fl (lo + fl (dlo / 2)))
     else BBox la lo (fl (la + dla)) (fl (lo + dlo)))"

text \<open>Two cells that differ by at most \<open>e\<close> in each component, and the size of a cell.\<close>

definition close :: "real \<Rightarrow> cell \<Rightarrow> cell \<Rightarrow> bool" where
  "close e s t = (case (s, t) of ((a, b, c, d), (a', b', c', d')) \<Rightarrow>
     \<bar>a - a'\<bar> \<le> e \<and> \<bar>b - b'\<bar> \<le> e \<and> \<bar>c - c'\<bar> \<le> e \<and> \<bar>d - d'\<bar> \<le> e)"

definition bounded_cell :: "cell \<Rightarrow> bool" where
  "bounded_cell t = (case t of (la, lo, dla, dlo) \<Rightarrow>
     0 \<le> la \<and> la + 2 * dla \<le> 70 \<and> 100 \<le> lo \<and> lo + 2 * dlo \<le> 210
     \<and> 0 < dla \<and> dla \<le> 1 \<and> 0 < dlo \<and> dlo \<le> 1)"

text \<open>
  Japan, between the parallels of 20 and 46 degrees north and the meridians of 122 and
  154 degrees east, which the standard mesh covers; and the tolerance of the
  specification, \<open>10\<^sup>-\<^sup>9\<close> degrees.
\<close>

definition japan_range :: "real \<Rightarrow> real \<Rightarrow> bool" where
  "japan_range lat lon = (20 \<le> lat \<and> lat \<le> 46 \<and> 122 \<le> lon \<and> lon \<le> 154)"

definition tol :: real where
  "tol = 1 / 10 ^ 9"

text \<open>The largest rounding error of a number below 256 in size.\<close>

definition rho :: real where
  "rho = 1 / 2 ^ 46"

section \<open>Properties\<close>

subsection \<open>Element-wise operations on arrays\<close>

lemma map2_map_map: "map2 f (map g xs) (map h xs) = map (\<lambda>x. f (g x) (h x)) xs"
  by (induction xs) auto

lemma zip_map_same: "zip (map g xs) (map h xs) = map (\<lambda>x. (g x, h x)) xs"
  by (induction xs) auto

lemma np_where_map:
  "np_where (map p xs) (map g xs) (map h xs) = map (\<lambda>x. if p x then g x else h x) xs"
  by (induction xs) (auto simp: np_where_def)

lemma astype_num_map:
  "\<forall>c \<in> set cs. h c \<noteq> [] \<and> list_all is_digit (h c) \<Longrightarrow>
     astype_num (map h cs) = Inr (map (\<lambda>c. digits_val (h c)) cs)"
  by (induction cs) (auto simp: parse_number_def)

lemma slice_digits: "list_all is_digit c \<Longrightarrow> list_all is_digit (str_slice a b c)"
  by (auto simp: str_slice_def list_all_iff dest: in_set_takeD in_set_dropD)

lemma code_ok_slices:
  assumes "code_ok c"
  shows "str_slice 0 2 c \<noteq> [] \<and> list_all is_digit (str_slice 0 2 c)"
    and "str_slice 2 4 c \<noteq> [] \<and> list_all is_digit (str_slice 2 4 c)"
  using assms by (auto simp: code_ok_def slice_digits) (auto simp: str_slice_def)

lemma replace_empty_ok:
  "list_all is_digit s \<Longrightarrow> replace_empty s \<noteq> [] \<and> list_all is_digit (replace_empty s)"
  by (auto simp: replace_empty_def is_digit_def)

lemma astype_num_slots:
  assumes "\<forall>c \<in> set cs. list_all is_digit c"
  shows "astype_num (map (\<lambda>c. replace_empty (str_slice i j c)) cs) =
         Inr (map (\<lambda>c. digits_val (replace_empty (str_slice i j c))) cs)"
  using assms by (intro astype_num_map) (auto simp: slice_digits replace_empty_ok)

subsection \<open>The batch decoder computes the cell of every element\<close>

lemma level2_block_arrays:
  assumes "\<forall>c \<in> set cs. list_all is_digit c"
  shows "level2_block cs (arrays_of f cs) = Inr (arrays_of (\<lambda>c. cell_sub 6 8 4 c (f c)) cs)"
proof (cases "list_ex (\<lambda>c. 6 \<le> length c) cs")
  case False
  then have "\<forall>c \<in> set cs. cell_sub 6 8 4 c (f c) = f c"
    by (auto simp: cell_sub_def list_ex_iff split: prod.splits)
  then have "arrays_of (\<lambda>c. cell_sub 6 8 4 c (f c)) cs = arrays_of f cs"
    by (simp add: arrays_of_def cong: map_cong)
  with False show ?thesis
    by (simp add: level2_block_def list_ex_iff)
next
  case True
  then show ?thesis
    unfolding level2_block_def Let_def
    by (simp add: list_ex_iff astype_num_slots [OF assms] arrays_of_def np_where_map
        map2_map_map zip_map_same o_def cell_sub_def slot_def split_beta cong: map_cong)
qed

lemma level3_block_arrays:
  assumes "\<forall>c \<in> set cs. list_all is_digit c"
  shows "level3_block cs (arrays_of f cs) = Inr (arrays_of (\<lambda>c. cell_sub 8 10 6 c (f c)) cs)"
proof (cases "list_ex (\<lambda>c. 8 \<le> length c) cs")
  case False
  then have "\<forall>c \<in> set cs. cell_sub 8 10 6 c (f c) = f c"
    by (auto simp: cell_sub_def list_ex_iff split: prod.splits)
  then have "arrays_of (\<lambda>c. cell_sub 8 10 6 c (f c)) cs = arrays_of f cs"
    by (simp add: arrays_of_def cong: map_cong)
  with False show ?thesis
    by (simp add: level3_block_def list_ex_iff)
next
  case True
  then show ?thesis
    unfolding level3_block_def Let_def
    by (simp add: list_ex_iff astype_num_slots [OF assms] arrays_of_def np_where_map
        map2_map_map zip_map_same o_def cell_sub_def slot_def split_beta cong: map_cong)
qed

lemma quadrant_step_arrays:
  assumes "\<forall>c \<in> set cs. list_all is_digit c"
  shows "quadrant_step cs i (arrays_of f cs) = Inr (arrays_of (\<lambda>c. cell_quad c i (f c)) cs)"
proof (cases "list_ex (\<lambda>c. i < length c) cs")
  case False
  then have "\<forall>c \<in> set cs. cell_quad c i (f c) = f c"
    by (auto simp: cell_quad_def list_ex_iff)
  then have "arrays_of (\<lambda>c. cell_quad c i (f c)) cs = arrays_of f cs"
    by (simp add: arrays_of_def cong: map_cong)
  with False show ?thesis
    by (simp add: quadrant_step_def list_ex_iff)
next
  case True
  then show ?thesis
    unfolding quadrant_step_def Let_def
    by (simp add: list_ex_iff astype_num_slots [OF assms] arrays_of_def np_where_map
        map2_map_map zip_map_same o_def cell_quad_def quadrant_def slot_def split_beta
        cong: map_cong)
qed

lemma quadrant_steps_arrays:
  assumes "\<forall>c \<in> set cs. list_all is_digit c"
  shows "quadrant_steps cs is (arrays_of f cs) =
         Inr (arrays_of (\<lambda>c. fold (cell_quad c) is (f c)) cs)"
  by (induction "is" arbitrary: f) (simp_all add: quadrant_step_arrays [OF assms])

lemma fold_cell_quad_beyond: "length c \<le> m \<Longrightarrow> fold (cell_quad c) [m ..< n] t = t"
  by (induction n) (simp_all add: cell_quad_def)

lemma fold_cell_quad_upto:
  assumes "length c \<le> n"
  shows "fold (cell_quad c) [8 ..< n] t = fold (cell_quad c) [8 ..< length c] t"
proof (cases "8 \<le> length c")
  case True
  with assms have "[8 ..< n] = [8 ..< length c] @ [length c ..< n]"
    by (metis le_Suc_ex upt_add_eq_append)
  then show ?thesis by (simp add: fold_cell_quad_beyond)
next
  case False
  then show ?thesis by (simp add: fold_cell_quad_beyond)
qed

lemma mode_output_arrays:
  "mode_output mode (arrays_of f cs) =
     (if valid_mode mode then Inr (map (\<lambda>c. cell_coords mode (f c)) cs) else Inl ValueError)"
  by (simp add: mode_output_def arrays_of_def map2_map_map zip_map_same cell_coords_def
      valid_mode_def split_beta)

lemma vectorized_cells:
  assumes "cs \<noteq> []" and "\<forall>c \<in> set cs. code_ok c"
  shows "meshcode_to_latlon_vectorized cs mode =
     (if valid_mode mode then Inr (map (\<lambda>c. cell_coords mode (decode_cell c)) cs)
      else Inl ValueError)"
proof -
  have d: "\<forall>c \<in> set cs. list_all is_digit c"
    using assms by (simp add: code_ok_def)
  have p1: "astype_num (map (str_slice 0 2) cs) = Inr (map (\<lambda>c. digits_val (str_slice 0 2 c)) cs)"
    using assms by (intro astype_num_map) (simp add: code_ok_slices)
  have p2: "astype_num (map (str_slice 2 4) cs) = Inr (map (\<lambda>c. digits_val (str_slice 2 4 c)) cs)"
    using assms by (intro astype_num_map) (simp add: code_ok_slices)
  have st0: "\<lparr>lat_arr = map (\<lambda>m. real m * (2.0 / 3.0)) (map (\<lambda>c. digits_val (str_slice 0 2 c)) cs),
              lon_arr = map (\<lambda>m. real m + 100.0) (map (\<lambda>c. digits_val (str_slice 2 4 c)) cs),
              lat_delta = map (\<lambda>_. 2.0 / 3.0) cs, lon_delta = map (\<lambda>_. 1.0) cs\<rparr>
             = arrays_of cell_init cs"
    by (simp add: arrays_of_def cell_init_def)
  have m: "\<forall>c \<in> set cs. length c \<le> Max (set (map length cs))"
    by simp
  have f: "fold (cell_quad c) [8 ..< Max (set (map length cs))] t
           = fold (cell_quad c) [8 ..< length c] t"
    if "c \<in> set cs" for c t
    using that m by (intro fold_cell_quad_upto) blast
  have g: "arrays_of (\<lambda>c. fold (cell_quad c) [8 ..< Max (set (map length cs))]
               (cell_sub 8 10 6 c (cell_sub 6 8 4 c (cell_init c)))) cs = arrays_of decode_cell cs"
    unfolding arrays_of_def decode_cell_def using f by (simp cong: map_cong)
  have "meshcode_to_latlon_vectorized cs mode = mode_output mode (arrays_of decode_cell cs)"
    unfolding meshcode_to_latlon_vectorized_def
    by (simp only: p1 p2 sum.case Let_def st0 level2_block_arrays [OF d]
          level3_block_arrays [OF d] quadrant_steps_arrays [OF d] g assms(1) if_False)
  then show ?thesis
    by (simp only: mode_output_arrays)
qed

subsection \<open>One code, and a code with one more character\<close>

lemma scalar_cell:
  assumes "code_ok c"
  shows "meshcode_to_latlon (StrArg c) mode =
     (if valid_mode mode then Inr (Dict (cell_coords mode (decode_cell c))) else Inl ValueError)"
  using assms by (simp add: meshcode_to_latlon_def vectorized_cells)

lemma series_cells:
  assumes "cs \<noteq> []" and "\<forall>c \<in> set cs. code_ok c"
  shows "meshcode_to_latlon (SeriesArg cs) mode =
     (if valid_mode mode then Inr (DataFrame (map (\<lambda>c. cell_coords mode (decode_cell c)) cs))
      else Inl ValueError)"
  using assms by (simp add: meshcode_to_latlon_def vectorized_cells)

lemma slot_append: "i < length p \<Longrightarrow> slot i (p @ q) = slot i p"
  by (simp add: slot_def str_slice_def)

lemma slot_end: "slot (length p) (p @ [ch]) = digit_val ch"
  by (simp add: slot_def str_slice_def replace_empty_def digits_val_def)

lemma cell_init_append: "4 \<le> length p \<Longrightarrow> cell_init (p @ q) = cell_init p"
  by (simp add: cell_init_def str_slice_def)

lemma cell_sub_append:
  "n \<le> length p \<Longrightarrow> i + 2 \<le> n \<Longrightarrow> cell_sub n k i (p @ q) t = cell_sub n k i p t"
  by (simp add: cell_sub_def slot_append split: prod.splits)

lemma fold_cell_quad_append:
  "n \<le> length p \<Longrightarrow> fold (cell_quad (p @ q)) [8 ..< n] t = fold (cell_quad p) [8 ..< n] t"
  by (rule fold_cong) (auto simp: cell_quad_def slot_append)

lemma decode_cell_append:
  assumes "8 \<le> length p"
  shows "decode_cell (p @ [ch]) = quadrant (digit_val ch) (decode_cell p)"
proof -
  have "[8 ..< length (p @ [ch])] = [8 ..< length p] @ [length p]"
    using assms by simp
  then show ?thesis
    using assms
    by (simp add: decode_cell_def cell_init_append cell_sub_append fold_cell_quad_append
        cell_quad_def slot_end del: upt_Suc)
qed

subsection \<open>The deltas depend on the length of the code only\<close>

lemma deltas_quadrant: "deltas (quadrant d t) = (fst (deltas t) / 2, snd (deltas t) / 2)"
  by (simp add: deltas_def quadrant_def split_beta)

lemma deltas_4: "length c < 6 \<Longrightarrow> deltas (decode_cell c) = (2 / 3, 1)"
  by (simp add: deltas_def decode_cell_def cell_sub_def cell_init_def)

lemma deltas_6: "6 \<le> length c \<Longrightarrow> length c < 8 \<Longrightarrow> deltas (decode_cell c) = (1 / 12, 1 / 8)"
  by (simp add: deltas_def decode_cell_def cell_sub_def cell_init_def)

lemma deltas_8: "length c = 8 \<Longrightarrow> deltas (decode_cell c) = (1 / 120, 1 / 80)"
  by (simp add: deltas_def decode_cell_def cell_sub_def cell_init_def)

lemma deltas_quads:
  "8 \<le> length c \<Longrightarrow> deltas (decode_cell c) = (1 / 120 / 2 ^ (length c - 8), 1 / 80 / 2 ^ (length c - 8))"
proof (induction c rule: rev_induct)
  case Nil
  then show ?case by simp
next
  case (snoc x p)
  show ?case
  proof (cases "8 \<le> length p")
    case True
    then have "Suc (length p) - 8 = Suc (length p - 8)" by simp
    with True snoc.IH show ?thesis
      by (simp add: decode_cell_append deltas_quadrant)
  next
    case False
    with snoc.prems have "length (p @ [x]) = 8" by simp
    then show ?thesis
      by (simp only: deltas_8) simp
  qed
qed

subsection \<open>Decimal digits, and the arithmetic of subdividing a cell\<close>

lemma astype_int_nonneg: "0 \<le> x \<Longrightarrow> astype_int x = \<lfloor>x\<rfloor>"
  by (simp add: astype_int_def)

lemma digit_val_digit_char: "d < 10 \<Longrightarrow> digit_val (digit_char d) = d"
  by (simp add: digit_val_def digit_char_def)

lemma digit_chars: "map digit_char [0 ..< 10] = ''0123456789''"
  by code_simp

lemma is_digit_digit_char: "d < 10 \<Longrightarrow> is_digit (digit_char d)"
proof -
  assume d: "d < 10"
  then have "digit_char d = map digit_char [0 ..< 10] ! d"
    by simp
  then have "digit_char d = ''0123456789'' ! d"
    by (simp only: digit_chars)
  moreover have "''0123456789'' ! d \<in> set ''0123456789''"
    using d by (intro nth_mem) simp
  ultimately show ?thesis
    by (simp only: is_digit_def)
qed

lemma digit_char_0: "digit_char 0 = CHR ''0''"
  by code_simp

lemma digit_char_not_sign:
  assumes "d < 10"
  shows "digit_char d \<noteq> CHR ''-''" and "digit_char d \<noteq> CHR ''+''"
  using is_digit_digit_char [OF assms] by (auto simp: is_digit_def)

lemma str_nat_1: "n < 10 \<Longrightarrow> str_nat n = [digit_char n]"
  by (simp add: str_nat.simps)

lemma str_nat_2: "10 \<le> n \<Longrightarrow> n < 100 \<Longrightarrow> str_nat n = [digit_char (n div 10), digit_char (n mod 10)]"
  by (subst str_nat.simps) (simp add: str_nat_1)

lemma zfill_2: "n < 100 \<Longrightarrow> zfill (str_nat n) 2 = [digit_char (n div 10), digit_char (n mod 10)]"
  by (cases "n < 10") (simp_all add: zfill_def str_nat_1 str_nat_2 digit_char_0 digit_char_not_sign)

lemma str_nat_nonempty: "str_nat n \<noteq> []"
  by (subst str_nat.simps) simp

lemma str_int_nonempty: "str_int i \<noteq> []"
  by (simp add: str_int_def str_nat_nonempty)

lemma quadrant_loop_digits:
  "quadrant_loop k ct_lat ct_lon cm_lat cm_lon code =
     code @ quad_digits k (ct_lat - real_of_int cm_lat) (ct_lon - real_of_int cm_lon)"
  by (induction k arbitrary: ct_lat ct_lon cm_lat cm_lon code) (simp_all add: Let_def)

lemma floor_scale: "\<lfloor>real n * z\<rfloor> = int n * \<lfloor>z\<rfloor> + \<lfloor>real n * frac z\<rfloor>"
proof -
  have "real n * z = real n * frac z + of_int (int n * \<lfloor>z\<rfloor>)"
    by (simp add: frac_def algebra_simps)
  then have "\<lfloor>real n * z\<rfloor> = \<lfloor>real n * frac z + of_int (int n * \<lfloor>z\<rfloor>)\<rfloor>"
    by (rule arg_cong)
  also have "\<dots> = \<lfloor>real n * frac z\<rfloor> + int n * \<lfloor>z\<rfloor>"
    by (rule floor_add_int [symmetric])
  finally show ?thesis
    by simp
qed

lemma frac_scale: "real n * frac z - of_int \<lfloor>real n * frac z\<rfloor> = frac (real n * z)"
proof -
  have "frac (real n * z) = real n * z - of_int (int n * \<lfloor>z\<rfloor> + \<lfloor>real n * frac z\<rfloor>)"
    by (simp only: frac_def floor_scale [of n z])
  also have "\<dots> = real n * frac z - of_int \<lfloor>real n * frac z\<rfloor>"
    by (simp add: frac_def [of z] algebra_simps)
  finally show ?thesis by simp
qed

lemma floor_scale_bounds: "0 < n \<Longrightarrow> 0 \<le> \<lfloor>real n * frac z\<rfloor> \<and> \<lfloor>real n * frac z\<rfloor> < int n"
proof -
  assume "0 < n"
  have "0 \<le> frac z" "frac z < 1" by (simp_all add: frac_lt_1)
  then have "0 \<le> real n * frac z" "real n * frac z < real n"
    using \<open>0 < n\<close> by simp_all
  then show ?thesis
    by (simp add: floor_less_iff)
qed

lemma grid_floor_subdivide:
  assumes "0 < d" and "0 < n"
  shows "grid_floor (d / real n) v = grid_floor d v + real_of_int \<lfloor>real n * frac (v / d)\<rfloor> * (d / real n)"
proof -
  have "v / (d / real n) = real n * (v / d)"
    by simp
  then have "grid_floor (d / real n) v
      = (d / real n) * of_int (int n * \<lfloor>v / d\<rfloor> + \<lfloor>real n * frac (v / d)\<rfloor>)"
    by (simp only: grid_floor_def floor_scale [of n "v / d"])
  also have "\<dots> = grid_floor d v + real_of_int \<lfloor>real n * frac (v / d)\<rfloor> * (d / real n)"
    using assms by (simp add: grid_floor_def field_simps)
  finally show ?thesis .
qed

subsection \<open>The encoder in closed form\<close>

lemma floor_frac_bounds:
  assumes "0 < n"
  shows "0 \<le> real n * frac z" and "0 \<le> \<lfloor>real n * frac z\<rfloor>" and "nat \<lfloor>real n * frac z\<rfloor> < n"
  using floor_scale_bounds [OF assms, of z] frac_ge_0 [of z] by (simp_all add: nat_less_iff)

lemma encode_closed:
  fixes lat lon :: real
  defines "x \<equiv> lat * 1.5" and "y \<equiv> lon - 100.0"
  assumes x: "10 \<le> x" "x < 100" and y: "0 \<le> y" "y < 100"
  shows "latlon_to_meshcode lat lon level =
     Inr (if level = 1 then code1 x y else if level = 2 then code2 x y
          else if level = 3 then code3 x y
          else code3 x y @ quad_digits (nat (level + 1 - 4)) (frac (80 * x)) (frac (80 * y)))"
proof -
  have fx: "10 \<le> \<lfloor>x\<rfloor>" "\<lfloor>x\<rfloor> < 100" and fy: "0 \<le> \<lfloor>y\<rfloor>" "\<lfloor>y\<rfloor> < 100"
    using x y by (simp_all add: le_floor_iff floor_less_iff)
  have ax: "astype_int x = \<lfloor>x\<rfloor>" and ay: "astype_int y = \<lfloor>y\<rfloor>"
    using x y by (simp_all add: astype_int_nonneg)
  have nx: "10 \<le> nat \<lfloor>x\<rfloor>" "nat \<lfloor>x\<rfloor> < 100" and ny: "nat \<lfloor>y\<rfloor> < 100"
    using fx fy by linarith+
  have s1: "str_int \<lfloor>x\<rfloor> = two_digits (nat \<lfloor>x\<rfloor>)"
    using fx by (simp add: str_int_def str_nat_2 [OF nx] two_digits_def)
  have s2: "zfill (str_int \<lfloor>y\<rfloor>) 2 = two_digits (nat \<lfloor>y\<rfloor>)"
    using fy by (simp add: str_int_def zfill_2 [OF ny] two_digits_def)
  have rx: "x - real_of_int \<lfloor>x\<rfloor> = frac x" and ry: "y - real_of_int \<lfloor>y\<rfloor> = frac y"
    by (simp_all add: frac_def)
  have nn: "\<not> frac z * real n < 0" for n z
    by (simp add: not_less)
  have d: "str_int (astype_int (frac z * real n)) = [digit_char (nat \<lfloor>real n * frac z\<rfloor>)]"
    if "0 < n" "n \<le> 10" for n z
    using that floor_frac_bounds [OF that(1), of z]
    by (simp add: astype_int_nonneg str_int_def str_nat_1 mult.commute nn)
  have r: "frac z * real n - real_of_int (astype_int (frac z * real n)) = frac (real n * z)"
    if "0 < n" for n z
    using that floor_frac_bounds [OF that, of z] frac_scale [of n z]
    by (simp add: astype_int_nonneg mult.commute)
  have d8: "str_int (astype_int (frac z * 8)) = [digit_char (nat \<lfloor>8 * frac z\<rfloor>)]" for z
    using d [of 8 z] by simp
  have r8: "frac z * 8 - real_of_int (astype_int (frac z * 8)) = frac (8 * z)" for z
    using r [of 8 z] by simp
  have d10: "str_int (astype_int (frac z * 10)) = [digit_char (nat \<lfloor>10 * frac z\<rfloor>)]" for z
    using d [of 10 z] by simp
  have r10: "frac (8 * z) * 10 - real_of_int (astype_int (frac (8 * z) * 10)) = frac (80 * z)" for z
    using r [of 10 "8 * z"] by simp
  show ?thesis
    unfolding latlon_to_meshcode_def Let_def x_def [symmetric] y_def [symmetric]
    by (simp add: ax ay s1 s2 rx ry d8 r8 d10 r10 quadrant_loop_digits code1_def code2_def code3_def
        sub_digits_def)
qed

subsection \<open>Decoding the codes of the encoder\<close>

lemma digits_val_two_digits: "n < 100 \<Longrightarrow> digits_val (two_digits n) = n"
  by (simp add: digits_val_def two_digits_def digit_val_digit_char)

lemma is_digit_two_digits: "n < 100 \<Longrightarrow> list_all is_digit (two_digits n)"
  by (simp add: two_digits_def is_digit_digit_char)

lemma is_digit_sub_digits:
  "0 < n \<Longrightarrow> n \<le> 10 \<Longrightarrow> list_all is_digit (sub_digits n (frac u) (frac v))"
  using floor_frac_bounds(3) [of n u] floor_frac_bounds(3) [of n v]
  by (simp add: sub_digits_def is_digit_digit_char)

lemma code_ok_codes:
  assumes "nat \<lfloor>x\<rfloor> < 100" and "nat \<lfloor>y\<rfloor> < 100"
  shows "code_ok (code1 x y) \<and> length (code1 x y) = 4"
    and "code_ok (code2 x y) \<and> length (code2 x y) = 6"
    and "code_ok (code3 x y) \<and> length (code3 x y) = 8"
proof -
  show 1: "code_ok (code1 x y) \<and> length (code1 x y) = 4"
    using assms is_digit_two_digits [of "nat \<lfloor>x\<rfloor>"] is_digit_two_digits [of "nat \<lfloor>y\<rfloor>"]
    by (simp add: code_ok_def code1_def) (simp add: two_digits_def)
  show 2: "code_ok (code2 x y) \<and> length (code2 x y) = 6"
    using 1 is_digit_sub_digits [of 8 x y]
    by (simp add: code_ok_def code2_def) (simp add: sub_digits_def)
  show "code_ok (code3 x y) \<and> length (code3 x y) = 8"
    using 2 is_digit_sub_digits [of 10 "8 * x" "8 * y"]
    by (simp add: code_ok_def code3_def) (simp add: sub_digits_def)
qed

lemma decode_cell_code1:
  assumes "nat \<lfloor>x\<rfloor> < 100" and "nat \<lfloor>y\<rfloor> < 100"
  shows "decode_cell (code1 x y) = (real (nat \<lfloor>x\<rfloor>) * (2 / 3), real (nat \<lfloor>y\<rfloor>) + 100, 2 / 3, 1)"
proof -
  have "str_slice 0 2 (code1 x y) = two_digits (nat \<lfloor>x\<rfloor>)"
       "str_slice 2 4 (code1 x y) = two_digits (nat \<lfloor>y\<rfloor>)"
    by (simp_all add: code1_def str_slice_def two_digits_def)
  then show ?thesis
    using assms code_ok_codes(1) [OF assms]
    by (simp add: decode_cell_def cell_sub_def cell_init_def digits_val_two_digits)
qed

lemma decode_cell_sub_digits:
  assumes "length p = m" and "m = 4 \<or> m = 6" and "0 < n" and "n \<le> 10"
    and "decode_cell p = (la, lo, dla, dlo)"
  shows "decode_cell (p @ sub_digits n (frac u) (frac v)) =
     (la + real_of_int \<lfloor>real n * frac u\<rfloor> * (dla / (if m = 4 then 8 else 10)),
      lo + real_of_int \<lfloor>real n * frac v\<rfloor> * (dlo / (if m = 4 then 8 else 10)),
      dla / (if m = 4 then 8 else 10), dlo / (if m = 4 then 8 else 10))"
proof -
  have s: "slot m (p @ sub_digits n (frac u) (frac v)) = nat \<lfloor>real n * frac u\<rfloor>"
    "slot (Suc m) (p @ sub_digits n (frac u) (frac v)) = nat \<lfloor>real n * frac v\<rfloor>"
    using assms(1) floor_frac_bounds(3) [of n u] floor_frac_bounds(3) [of n v] assms(3,4)
    by (simp_all add: slot_def str_slice_def sub_digits_def replace_empty_def digits_val_def
        digit_val_digit_char)
  have nn: "real (nat \<lfloor>real n * frac u\<rfloor>) = real_of_int \<lfloor>real n * frac u\<rfloor>"
    "real (nat \<lfloor>real n * frac v\<rfloor>) = real_of_int \<lfloor>real n * frac v\<rfloor>"
    using floor_frac_bounds(2) [OF assms(3)] by simp_all
  from assms(2) show ?thesis
  proof
    assume m: "m = 4"
    have "decode_cell p = cell_init p"
      using m assms(1) by (simp add: decode_cell_def cell_sub_def split: prod.splits)
    then have "cell_init p = (la, lo, dla, dlo)" using assms(5) by simp
    then show ?thesis
      using m assms(1) s nn
      by (simp add: decode_cell_def cell_sub_def cell_init_append sub_digits_def)
  next
    assume m: "m = 6"
    have "decode_cell p = cell_sub 6 8 4 p (cell_init p)"
      using m assms(1) by (simp add: decode_cell_def cell_sub_def split: prod.splits)
    then have "cell_sub 6 8 4 p (cell_init p) = (la, lo, dla, dlo)" using assms(5) by simp
    then show ?thesis
      using m assms(1) s nn
      by (simp add: decode_cell_def cell_init_append cell_sub_append [of 6] cell_sub_def [of 8]
          sub_digits_def)
  qed
qed

subsection \<open>The quadrant digits\<close>

lemma subdivisions_values:
  "subdivisions 1 = 1" "subdivisions 2 = 8" "subdivisions 3 = 80"
  "subdivisions (3 + k) = 80 * 2 ^ k"
proof -
  show 1: "subdivisions 1 = 1" by simp
  have "subdivisions (Suc (Suc 0)) = 8" by simp
  then show 2: "subdivisions 2 = 8" by (simp add: numeral_2_eq_2)
  have "subdivisions (Suc (Suc (Suc 0))) = 80" by simp
  then show 3: "subdivisions 3 = 80" by (simp add: numeral_3_eq_3)
  show "subdivisions (3 + k) = 80 * 2 ^ k"
  proof (induction k)
    case 0
    then show ?case using 3 by simp
  next
    case (Suc k)
    have "subdivisions (Suc (3 + k)) = 2 * subdivisions (3 + k)"
      by (simp only: subdivisions.simps) simp
    then show ?case using Suc by simp
  qed
qed

lemma quad_digit:
  fixes lat lon dla dlo :: real
  assumes "0 < dla" and "0 < dlo"
  defines "r \<equiv> frac (lat / dla)" and "s \<equiv> frac (lon / dlo)"
  defines "a \<equiv> \<lfloor>r * 2\<rfloor>" and "b \<equiv> \<lfloor>s * 2\<rfloor>"
  defines "d \<equiv> nat (a * 2 + b + 1)"
  shows "d \<in> {1, 2, 3, 4}"
    and "str_int (astype_int (r * 2) * 2 + astype_int (s * 2) + 1) = [digit_char d]"
    and "quadrant d (grid_floor dla lat, grid_floor dlo lon, dla, dlo) =
           (grid_floor (dla / 2) lat, grid_floor (dlo / 2) lon, dla / 2, dlo / 2)"
    and "r * 2 - real_of_int (astype_int (r * 2)) = frac (lat / (dla / 2))"
    and "s * 2 - real_of_int (astype_int (s * 2)) = frac (lon / (dlo / 2))"
proof -
  have "0 \<le> a \<and> a < 2" and "0 \<le> b \<and> b < 2"
    using floor_scale_bounds [of 2 "lat / dla"] floor_scale_bounds [of 2 "lon / dlo"]
    by (simp_all add: a_def b_def r_def s_def mult.commute)
  then have ab: "a = 0 \<or> a = 1" "b = 0 \<or> b = 1"
    by linarith+
  have ar: "astype_int (r * 2) = a" and as: "astype_int (s * 2) = b"
    by (simp_all add: astype_int_nonneg r_def s_def a_def b_def)
  show d: "d \<in> {1, 2, 3, 4}"
    using ab unfolding d_def by auto
  have dd: "a * 2 + b + 1 = int d"
    using ab by (auto simp: d_def)
  have "d < 10" using d by auto
  then show "str_int (astype_int (r * 2) * 2 + astype_int (s * 2) + 1) = [digit_char d]"
    by (simp only: ar as dd) (simp add: str_int_def str_nat_1)
  have g: "grid_floor (e / 2) v = grid_floor e v + real_of_int \<lfloor>frac (v / e) * 2\<rfloor> * (e / 2)"
    if "0 < e" for e v :: real
    using grid_floor_subdivide [OF that, of 2 v] by (simp add: mult.commute)
  have q: "(if d \<in> {3, 4} then dla / 2 else 0) = real_of_int a * (dla / 2)"
    "(if d \<in> {2, 4} then dlo / 2 else 0) = real_of_int b * (dlo / 2)"
    using ab unfolding d_def by auto
  show "quadrant d (grid_floor dla lat, grid_floor dlo lon, dla, dlo) =
           (grid_floor (dla / 2) lat, grid_floor (dlo / 2) lon, dla / 2, dlo / 2)"
    using assms(1,2) unfolding quadrant_def prod.case q
    by (simp add: g r_def s_def a_def b_def)
  show "r * 2 - real_of_int (astype_int (r * 2)) = frac (lat / (dla / 2))"
    using frac_scale [of 2 "lat / dla"] by (simp add: astype_int_nonneg r_def mult.commute)
  show "s * 2 - real_of_int (astype_int (s * 2)) = frac (lon / (dlo / 2))"
    using frac_scale [of 2 "lon / dlo"] by (simp add: astype_int_nonneg s_def mult.commute)
qed

lemma decode_quad_digits:
  fixes lat lon dla dlo :: real
  assumes "0 < dla" and "0 < dlo" and "code_ok p" and "8 \<le> length p"
    and "decode_cell p = (grid_floor dla lat, grid_floor dlo lon, dla, dlo)"
  shows "code_ok (p @ quad_digits k (frac (lat / dla)) (frac (lon / dlo)))
       \<and> length (p @ quad_digits k (frac (lat / dla)) (frac (lon / dlo))) = length p + k
       \<and> decode_cell (p @ quad_digits k (frac (lat / dla)) (frac (lon / dlo))) =
           (grid_floor (dla / 2 ^ k) lat, grid_floor (dlo / 2 ^ k) lon, dla / 2 ^ k, dlo / 2 ^ k)"
  using assms
proof (induction k arbitrary: p dla dlo)
  case 0
  then show ?case by simp
next
  case (Suc k)
  define d where "d = nat (\<lfloor>frac (lat / dla) * 2\<rfloor> * 2 + \<lfloor>frac (lon / dlo) * 2\<rfloor> + 1)"
  note q = quad_digit(1-3) [OF Suc.prems(1,2), where lat = lat and lon = lon, folded d_def]
    quad_digit(4) [OF Suc.prems(1,2), where lat = lat]
    quad_digit(5) [OF Suc.prems(1,2), where lon = lon]
  have d10: "d < 10" using q(1) by auto
  have qd: "quad_digits (Suc k) (frac (lat / dla)) (frac (lon / dlo)) =
      digit_char d # quad_digits k (frac (lat / (dla / 2))) (frac (lon / (dlo / 2)))"
    by (simp only: quad_digits.simps q(2) q(4) q(5)) simp
  have ok: "code_ok (p @ [digit_char d])"
    using Suc.prems(3) d10 by (simp add: code_ok_def is_digit_digit_char)
  have dc: "decode_cell (p @ [digit_char d]) =
      (grid_floor (dla / 2) lat, grid_floor (dlo / 2) lon, dla / 2, dlo / 2)"
    using Suc.prems(4,5) d10 q(3) by (simp add: decode_cell_append digit_val_digit_char)
  have "code_ok ((p @ [digit_char d]) @ quad_digits k (frac (lat / (dla / 2))) (frac (lon / (dlo / 2))))
       \<and> length ((p @ [digit_char d]) @ quad_digits k (frac (lat / (dla / 2))) (frac (lon / (dlo / 2))))
           = length (p @ [digit_char d]) + k
       \<and> decode_cell ((p @ [digit_char d]) @ quad_digits k (frac (lat / (dla / 2))) (frac (lon / (dlo / 2)))) =
           (grid_floor (dla / 2 / 2 ^ k) lat, grid_floor (dlo / 2 / 2 ^ k) lon, dla / 2 / 2 ^ k, dlo / 2 / 2 ^ k)"
    using Suc.prems(1,2,4) by (intro Suc.IH ok dc) simp_all
  then show ?case
    unfolding qd by simp
qed

lemma level1_grid:
  assumes "mesh_range lat lon"
  shows "10 \<le> lat * 1.5" "lat * 1.5 < 100" "0 \<le> lon - 100.0" "lon - 100.0 < 100"
    and "lat * 1.5 = lat / lat_step 1" and "frac (lon - 100.0) = frac (lon / lon_step 1)"
    and "real (nat \<lfloor>lat * 1.5\<rfloor>) * (2 / 3) = grid_floor (lat_step 1) lat"
    and "real (nat \<lfloor>lon - 100.0\<rfloor>) + 100 = grid_floor (lon_step 1) lon"
proof -
  show r: "10 \<le> lat * 1.5" "lat * 1.5 < 100" "0 \<le> lon - 100.0" "lon - 100.0 < 100"
    using assms by (simp_all add: mesh_range_def)
  show x: "lat * 1.5 = lat / lat_step 1"
    by (simp add: lat_step_def)
  have "lon - 100.0 = lon - of_int 100" by simp
  then have "frac (lon - 100.0) = frac lon"
    by (simp only: frac_def floor_diff_of_int)
  then show "frac (lon - 100.0) = frac (lon / lon_step 1)"
    by (simp add: lon_step_def)
  have "0 \<le> \<lfloor>lat * 1.5\<rfloor>" using r(1) by (simp add: le_floor_iff)
  then show "real (nat \<lfloor>lat * 1.5\<rfloor>) * (2 / 3) = grid_floor (lat_step 1) lat"
    by (simp add: grid_floor_def lat_step_def)
  have "0 \<le> \<lfloor>lon - 100.0\<rfloor>" using r(3) by (simp add: le_floor_iff)
  then show "real (nat \<lfloor>lon - 100.0\<rfloor>) + 100 = grid_floor (lon_step 1) lon"
    by (simp add: grid_floor_def lon_step_def)
qed

subsection \<open>Encoding, then decoding\<close>

lemma decode_sub_grid:
  fixes lat lon dla dlo :: real
  assumes "length p = m" and "m = 4 \<or> m = 6" and "n = (if m = 4 then 8 else 10)"
    and "0 < dla" and "0 < dlo"
    and "decode_cell p = (grid_floor dla lat, grid_floor dlo lon, dla, dlo)"
  shows "decode_cell (p @ sub_digits n (frac (lat / dla)) (frac (lon / dlo))) =
     (grid_floor (dla / real n) lat, grid_floor (dlo / real n) lon, dla / real n, dlo / real n)"
proof -
  have n: "0 < n" "n \<le> 10" "real n = (if m = 4 then 8 else 10)"
    using assms(3) by simp_all
  show ?thesis
    unfolding decode_cell_sub_digits [OF assms(1,2) n(1,2) assms(6)]
      grid_floor_subdivide [OF assms(4) n(1)] grid_floor_subdivide [OF assms(5) n(1)]
    by (simp only: n(3))
qed

lemma steps:
  "lat_step 1 = 2 / 3" "lon_step 1 = 1"
  "lat_step 2 = lat_step 1 / real 8" "lon_step 2 = lon_step 1 / real 8"
  "lat_step 3 = lat_step 2 / real 10" "lon_step 3 = lon_step 2 / real 10"
  "lat_step (3 + k) = lat_step 3 / 2 ^ k" "lon_step (3 + k) = lon_step 3 / 2 ^ k"
  "0 < lat_step n" "0 < lon_step n"
proof -
  have "0 < subdivisions n"
    by (induction n) simp_all
  then show "0 < lat_step n" "0 < lon_step n"
    by (simp_all add: lat_step_def lon_step_def)
qed (simp_all add: lat_step_def lon_step_def subdivisions_values)

lemma frac_shift: "frac (real n * (v - 100.0)) = frac (real n * v)"
proof -
  have "real n * (v - 100.0) = real n * v - of_int (int n * 100)"
    by (simp add: algebra_simps)
  then show ?thesis
    by (simp only: frac_def floor_diff_of_int)
qed

lemma encode_decode_cell:
  fixes lat lon :: real
  assumes "mesh_range lat lon" and "1 \<le> level"
  defines "n \<equiv> nat level"
  shows "\<exists>c. latlon_to_meshcode lat lon level = Inr c \<and> code_ok c \<and> length c = code_length n
     \<and> decode_cell c = (grid_floor (lat_step n) lat, grid_floor (lon_step n) lon, lat_step n, lon_step n)"
proof -
  define x where "x = lat * 1.5"
  define y where "y = lon - 100.0"
  note g = level1_grid [OF assms(1), folded x_def y_def]
  have nx: "nat \<lfloor>x\<rfloor> < 100" and ny: "nat \<lfloor>y\<rfloor> < 100"
    using g(1-4) by (simp_all add: nat_less_iff floor_less_iff)
  note ok = code_ok_codes [OF nx ny]
  have enc: "latlon_to_meshcode lat lon level =
     Inr (if level = 1 then code1 x y else if level = 2 then code2 x y
          else if level = 3 then code3 x y
          else code3 x y @ quad_digits (nat (level + 1 - 4)) (frac (80 * x)) (frac (80 * y)))"
    unfolding x_def y_def by (rule encode_closed) (use g(1-4) in \<open>simp_all add: x_def y_def\<close>)
  have f1: "frac x = frac (lat / lat_step 1)" "frac y = frac (lon / lon_step 1)"
    using g(5,6) by simp_all
  have s2: "lat / lat_step 2 = 8 * x" "lon / lon_step 2 = 8 * lon"
    and s3: "lat / lat_step 3 = 80 * x" "lon / lon_step 3 = 80 * lon"
    by (simp_all add: lat_step_def lon_step_def subdivisions_values x_def)
  have f2: "frac (8 * x) = frac (lat / lat_step 2)" "frac (8 * y) = frac (lon / lon_step 2)"
    unfolding s2 y_def using frac_shift [of 8 lon] by simp_all
  have f3: "frac (80 * x) = frac (lat / lat_step 3)" "frac (80 * y) = frac (lon / lon_step 3)"
    unfolding s3 y_def using frac_shift [of 80 lon] by simp_all
  have c1: "decode_cell (code1 x y) =
      (grid_floor (lat_step 1) lat, grid_floor (lon_step 1) lon, lat_step 1, lon_step 1)"
    unfolding decode_cell_code1 [OF nx ny] g(7,8) by (simp only: steps(1,2))
  have c2: "decode_cell (code2 x y) =
      (grid_floor (lat_step 2) lat, grid_floor (lon_step 2) lon, lat_step 2, lon_step 2)"
    unfolding code2_def f1 steps(3,4)
    by (rule decode_sub_grid [where m = 4]) (use ok(1) c1 steps(9,10) in simp_all)
  have c3: "decode_cell (code3 x y) =
      (grid_floor (lat_step 3) lat, grid_floor (lon_step 3) lon, lat_step 3, lon_step 3)"
    unfolding code3_def f2 steps(5,6)
    by (rule decode_sub_grid [where m = 6]) (use ok(2) c2 steps(9,10) in simp_all)
  consider "level = 1" | "level = 2" | "level = 3" | "4 \<le> level"
    using assms(2) by linarith
  then show ?thesis
  proof cases
    case 1
    then show ?thesis using enc ok(1) c1 by (simp add: n_def code_length_def)
  next
    case 2
    then show ?thesis using enc ok(2) c2 by (simp add: n_def code_length_def)
  next
    case 3
    then show ?thesis using enc ok(3) c3 by (simp add: n_def code_length_def)
  next
    case 4
    define k where "k = nat (level + 1 - 4)"
    have n: "n = 3 + k" and k: "0 < k"
      using 4 by (simp_all add: n_def k_def)
    have e: "latlon_to_meshcode lat lon level =
        Inr (code3 x y @ quad_digits k (frac (lat / lat_step 3)) (frac (lon / lon_step 3)))"
      using 4 enc by (simp add: k_def f3)
    have "8 \<le> length (code3 x y)" using ok(3) by simp
    note q = decode_quad_digits [OF steps(9,10) conjunct1 [OF ok(3)] this c3, of k]
    show ?thesis
      unfolding e n steps(7,8) using q ok(3) k by (simp add: code_length_def)
  qed
qed

subsection \<open>The cells of the grid\<close>


lemma grid_floor_unique:
  assumes "0 < d" and "d * real_of_int i \<le> v" and "v < d * real_of_int (i + 1)"
  shows "grid_floor d v = d * real_of_int i"
proof -
  have "real_of_int i \<le> v / d" and "v / d < real_of_int i + 1"
    using assms by (simp_all add: field_simps)
  then have "\<lfloor>v / d\<rfloor> = i"
    by linarith
  then show ?thesis
    by (simp add: grid_floor_def)
qed


section \<open>The claims\<close>





lemma bbox_size:
  "height (cell_coords ''bbox'' t) = fst (deltas t)" "width (cell_coords ''bbox'' t) = snd (deltas t)"
  by (simp_all add: height_def width_def cell_coords_def deltas_def split_beta)

lemma step_values:
  "lat_step 1 = 2 / 3" "lon_step 1 = 1" "lat_step 2 = 1 / 12" "lon_step 2 = 1 / 8"
  "lat_step 3 = 1 / 120" "lon_step 3 = 1 / 80"
  "lat_step (3 + k) = 1 / 120 / 2 ^ k" "lon_step (3 + k) = 1 / 80 / 2 ^ k"
  by (simp_all add: lat_step_def lon_step_def subdivisions_values)

lemma deltas_full_length:
  assumes "level \<in> {1..6}" and "length c = code_length level"
  shows "deltas (decode_cell c) = (lat_step level, lon_step level)"
proof -
  consider "level = 1" | "level = 2" | "3 \<le> level"
    using assms(1) by force
  then show ?thesis
  proof cases
    case 1
    have "length c < 6" using assms(2) by (simp add: 1 code_length_def)
    then show ?thesis unfolding 1 step_values by (rule deltas_4)
  next
    case 2
    have "6 \<le> length c" "length c < 8" using assms(2) by (simp_all add: 2 code_length_def)
    then show ?thesis unfolding 2 step_values by (rule deltas_6)
  next
    case 3
    then obtain k where k: "level = 3 + k" by (metis le_Suc_ex)
    then have "length c = 8 + k" using assms(2) by (simp add: code_length_def)
    then show ?thesis
      unfolding k step_values by (simp add: deltas_quads)
  qed
qed

text \<open>
  Claim C2 (cell size). For every code of digits that has the full length of its level
  (4, 6, 8, 9, 10 and 11 characters for the levels 1 to 6), the bounding box that the
  decoder returns has the height and the width of the level and nothing else decides
  them: \<open>2/3\<close> by \<open>1\<close> degree at level 1, \<open>1/12\<close> by \<open>1/8\<close> at level 2,
  \<open>1/120\<close> by \<open>1/80\<close> at level 3, and half the height and half the width of
  the level before at each of the levels 4, 5 and 6.
\<close>

theorem cell_size:
  assumes "list_all is_digit c" and "level \<in> {1..6}" and "length c = code_length level"
  shows "(\<exists>box. meshcode_to_latlon (StrArg c) ''bbox'' = Inr (Dict box)
            \<and> height box = lat_step level \<and> width box = lon_step level)
    \<and> lat_step 1 = 2 / 3 \<and> lon_step 1 = 1
    \<and> lat_step 2 = 1 / 12 \<and> lon_step 2 = 1 / 8
    \<and> lat_step 3 = 1 / 120 \<and> lon_step 3 = 1 / 80
    \<and> lat_step 4 = lat_step 3 / 2 \<and> lon_step 4 = lon_step 3 / 2
    \<and> lat_step 5 = lat_step 4 / 2 \<and> lon_step 5 = lon_step 4 / 2
    \<and> lat_step 6 = lat_step 5 / 2 \<and> lon_step 6 = lon_step 5 / 2"
proof -
  have "4 \<le> length c"
    using assms(2,3) by (simp add: code_length_def)
  then have "code_ok c"
    using assms(1) by (simp add: code_ok_def)
  then have a: "\<exists>box. meshcode_to_latlon (StrArg c) ''bbox'' = Inr (Dict box)
            \<and> height box = lat_step level \<and> width box = lon_step level"
    using deltas_full_length [OF assms(2,3)]
    by (simp add: scalar_cell valid_mode_def bbox_size)
  have b: "lat_step 4 = lat_step 3 / 2 \<and> lon_step 4 = lon_step 3 / 2
    \<and> lat_step 5 = lat_step 4 / 2 \<and> lon_step 5 = lon_step 4 / 2
    \<and> lat_step 6 = lat_step 5 / 2 \<and> lon_step 6 = lon_step 5 / 2"
    using step_values(7,8) [of 1] step_values(7,8) [of 2] step_values(7,8) [of 3]
    by (simp add: step_values(5,6))
  show ?thesis
    using a b step_values(1-6) by blast
qed

theorem cell_size_witness:
  "list_all is_digit ''533946113'' \<and> (4::nat) \<in> {1..6} \<and> length ''533946113'' = code_length 4
    \<and> (\<exists>box. meshcode_to_latlon (StrArg ''533946113'') ''bbox'' = Inr (Dict box)
            \<and> height box = lat_step 4 \<and> width box = lon_step 4)
    \<and> lat_step 4 = lat_step 3 / 2 \<and> lat_step 3 = 1 / 120"
proof -
  have h1: "list_all is_digit ''533946113''" by (simp add: is_digit_def)
  have h2: "(4::nat) \<in> {1..6}" by simp
  have h3: "length ''533946113'' = code_length 4" by (simp add: code_length_def)
  show ?thesis
    using h1 h2 h3 cell_size [OF h1 h2 h3] by blast
qed

lemma decode_cell_5: "length c = 5 \<Longrightarrow> decode_cell (take 4 c) = decode_cell c"
  by (simp add: decode_cell_def cell_sub_def cell_init_def str_slice_def drop_take min_def)

lemma decode_cell_7: "length c = 7 \<Longrightarrow> decode_cell (take 6 c) = decode_cell c"
  by (simp add: decode_cell_def cell_sub_def cell_init_def str_slice_def slot_def drop_take min_def)

lemma code_ok_take: "code_ok c \<Longrightarrow> 4 \<le> n \<Longrightarrow> code_ok (take n c)"
  by (auto simp: code_ok_def list_all_iff dest: in_set_takeD)

text \<open>
  Claim C9 (unpaired digit). A code of five digits decodes, in every mode, to what its
  first four characters decode to: the fifth digit adds nothing and the deltas are those
  of level 1, \<open>2/3\<close> and \<open>1\<close>. A code of seven digits decodes to what its first six
  characters decode to.
\<close>

theorem unpaired_digit_discard:
  assumes "list_all is_digit c"
  shows "(length c = 5 \<longrightarrow>
            meshcode_to_latlon (StrArg c) mode = meshcode_to_latlon (StrArg (take 4 c)) mode
          \<and> (\<exists>box. meshcode_to_latlon (StrArg c) ''bbox'' = Inr (Dict box)
                \<and> height box = 2 / 3 \<and> width box = 1))
       \<and> (length c = 7 \<longrightarrow>
            meshcode_to_latlon (StrArg c) mode = meshcode_to_latlon (StrArg (take 6 c)) mode)"
proof (intro conjI impI)
  assume l: "length c = 5"
  then have "code_ok c"
    using assms by (simp add: code_ok_def)
  then have ok: "code_ok c" "code_ok (take 4 c)"
    by (simp_all add: code_ok_take)
  then show "meshcode_to_latlon (StrArg c) mode = meshcode_to_latlon (StrArg (take 4 c)) mode"
    using l by (simp add: scalar_cell decode_cell_5)
  have "length c < 6" using l by simp
  then show "\<exists>box. meshcode_to_latlon (StrArg c) ''bbox'' = Inr (Dict box)
                \<and> height box = 2 / 3 \<and> width box = 1"
    using ok(1) by (simp add: scalar_cell valid_mode_def bbox_size deltas_4)
next
  assume l: "length c = 7"
  then have "code_ok c"
    using assms by (simp add: code_ok_def)
  then have "code_ok c" "code_ok (take 6 c)"
    using l by (simp_all add: code_ok_take)
  then show "meshcode_to_latlon (StrArg c) mode = meshcode_to_latlon (StrArg (take 6 c)) mode"
    using l by (simp add: scalar_cell decode_cell_7)
qed

theorem unpaired_digit_discard_witness:
  "list_all is_digit ''53394'' \<and> length ''53394'' = 5
   \<and> meshcode_to_latlon (StrArg ''53394'') ''center'' = meshcode_to_latlon (StrArg ''5339'') ''center''
   \<and> (\<exists>box. meshcode_to_latlon (StrArg ''53394'') ''bbox'' = Inr (Dict box)
          \<and> height box = 2 / 3 \<and> width box = 1)
   \<and> list_all is_digit ''5339461'' \<and> length ''5339461'' = 7
   \<and> meshcode_to_latlon (StrArg ''5339461'') ''sw'' = meshcode_to_latlon (StrArg ''533946'') ''sw''"
proof -
  have h1: "list_all is_digit ''53394''" and h2: "list_all is_digit ''5339461''"
    by (simp_all add: is_digit_def)
  show ?thesis
    using h1 h2 unpaired_digit_discard [OF h1, of "''center''"] unpaired_digit_discard [OF h2, of "''sw''"]
    by simp
qed

text \<open>
  Claim C4 (batch and scalar), as amended. For every batch that is not empty, of codes
  that are strings of at least four digits, and every mode of \<open>sw\<close>, \<open>center\<close> and
  \<open>bbox\<close>: the decoder returns one record for each code, at the position of the code,
  and this record is the one that decoding the code alone returns, which is a single
  record and not a batch.
\<close>

theorem batch_scalar_equivalence:
  assumes "cs \<noteq> []" and "\<forall>c \<in> set cs. list_all is_digit c \<and> 4 \<le> length c"
    and "mode \<in> {''sw'', ''center'', ''bbox''}"
  shows "\<exists>rs. meshcode_to_latlon (SeriesArg cs) mode = Inr (DataFrame rs)
      \<and> length rs = length cs
      \<and> (\<forall>i < length cs. meshcode_to_latlon (StrArg (cs ! i)) mode = Inr (Dict (rs ! i)))"
proof -
  have ok: "\<forall>c \<in> set cs. code_ok c"
    using assms(2) by (simp add: code_ok_def)
  have m: "valid_mode mode"
    using assms(3) by (auto simp: valid_mode_def)
  have "meshcode_to_latlon (StrArg (cs ! i)) mode
        = Inr (Dict (map (\<lambda>c. cell_coords mode (decode_cell c)) cs ! i))" if "i < length cs" for i
    using that ok m by (simp add: scalar_cell)
  then show ?thesis
    using m by (simp add: series_cells [OF assms(1) ok])
qed

theorem batch_scalar_equivalence_witness:
  "\<exists>rs. meshcode_to_latlon (SeriesArg [''5339'', ''53394611'', ''533946113'']) ''bbox''
           = Inr (DataFrame rs)
      \<and> length rs = 3
      \<and> meshcode_to_latlon (StrArg ''5339'') ''bbox'' = Inr (Dict (rs ! 0))
      \<and> meshcode_to_latlon (StrArg ''53394611'') ''bbox'' = Inr (Dict (rs ! 1))
      \<and> meshcode_to_latlon (StrArg ''533946113'') ''bbox'' = Inr (Dict (rs ! 2))"
proof -
  let ?cs = "[''5339'', ''53394611'', ''533946113'']"
  have h1: "?cs \<noteq> []" by simp
  have h2: "\<forall>c \<in> set ?cs. list_all is_digit c \<and> 4 \<le> length c"
    by (simp add: is_digit_def)
  have h3: "''bbox'' \<in> {''sw'', ''center'', ''bbox''}" by simp
  from batch_scalar_equivalence [OF h1 h2 h3]
  obtain rs where rs: "meshcode_to_latlon (SeriesArg ?cs) ''bbox'' = Inr (DataFrame rs)"
    "length rs = length ?cs"
    "\<forall>i < length ?cs. meshcode_to_latlon (StrArg (?cs ! i)) ''bbox'' = Inr (Dict (rs ! i))"
    by blast
  have "meshcode_to_latlon (StrArg (?cs ! 0)) ''bbox'' = Inr (Dict (rs ! 0))"
    "meshcode_to_latlon (StrArg (?cs ! 1)) ''bbox'' = Inr (Dict (rs ! 1))"
    "meshcode_to_latlon (StrArg (?cs ! 2)) ''bbox'' = Inr (Dict (rs ! 2))"
    using rs(3) [rule_format, of 0] rs(3) [rule_format, of 1] rs(3) [rule_format, of 2]
    by simp_all
  then show ?thesis
    using rs(1,2) by simp
qed

text \<open>
  Claim C4 as stated fails on a batch with a code shorter than its level-1 part: the
  slice of the longitude index is empty, its conversion raises, and the batch of two codes
  yields no record at all. It fails on the empty batch too, which raises instead of
  yielding no records.
\<close>

theorem batch_short_code_counterexample:
  "meshcode_to_latlon (SeriesArg [''53394611'', ''53'']) ''sw'' = Inl ValueError
   \<and> meshcode_to_latlon (SeriesArg []) ''sw'' = Inl ValueError"
  by code_simp

text \<open>
  Claim C6 (mode validation), as amended. For every batch that is not empty, of codes that
  are strings of at least four digits, the decoder raises \<^verbatim>\<open>ValueError\<close> exactly when the
  mode is none of \<open>sw\<close>, \<open>center\<close> and \<open>bbox\<close>; and a call either raises or returns
  a record for every code of the batch, never a part of them.
\<close>

theorem mode_validation:
  assumes "cs \<noteq> []" and "\<forall>c \<in> set cs. list_all is_digit c \<and> 4 \<le> length c"
  shows "(meshcode_to_latlon (SeriesArg cs) mode = Inl ValueError)
          = (mode \<notin> {''sw'', ''center'', ''bbox''})
      \<and> (meshcode_to_latlon (SeriesArg cs) mode = Inl ValueError
          \<or> (\<exists>rs. meshcode_to_latlon (SeriesArg cs) mode = Inr (DataFrame rs)
                \<and> length rs = length cs))"
proof -
  have ok: "\<forall>c \<in> set cs. code_ok c"
    using assms(2) by (simp add: code_ok_def)
  show ?thesis
    by (auto simp: series_cells [OF assms(1) ok] valid_mode_def)
qed

theorem mode_validation_witness:
  "meshcode_to_latlon (SeriesArg [''5339'', ''53394611'']) ''corner'' = Inl ValueError
   \<and> meshcode_to_latlon (SeriesArg [''5339'', ''53394611'']) ''center'' \<noteq> Inl ValueError
   \<and> (\<exists>rs. meshcode_to_latlon (SeriesArg [''5339'', ''53394611'']) ''center'' = Inr (DataFrame rs)
         \<and> length rs = length [''5339'', ''53394611''])"
proof -
  have h1: "[''5339'', ''53394611''] \<noteq> []" by simp
  have h2: "\<forall>c \<in> set [''5339'', ''53394611'']. list_all is_digit c \<and> 4 \<le> length c"
    by (simp add: is_digit_def)
  show ?thesis
    using mode_validation [OF h1 h2, of "''corner''"] mode_validation [OF h1 h2, of "''center''"]
    by auto
qed

text \<open>
  Claim C6 as stated fails: with a valid mode the decoder still raises on a batch that
  holds a code of two digits, and on the empty batch.
\<close>

theorem mode_validation_counterexample:
  "meshcode_to_latlon (SeriesArg [''5339'', ''53'']) ''bbox'' = Inl ValueError
   \<and> meshcode_to_latlon (SeriesArg []) ''bbox'' = Inl ValueError"
  by code_simp









lemma quad_digits_nonempty: "quad_digits (Suc k) r s \<noteq> []"
  by (simp add: str_int_nonempty)

lemma quad_digits_add:
  "\<exists>r' s'. quad_digits (j + k) r s = quad_digits j r s @ quad_digits k r' s'"
proof (induction j arbitrary: r s)
  case 0
  then show ?case by auto
next
  case (Suc j)
  from Suc [of "r * 2 - real_of_int (astype_int (r * 2))" "s * 2 - real_of_int (astype_int (s * 2))"]
  show ?case by auto
qed

text \<open>
  Claim C5 (level validation), as amended. The encoder checks no level. For every
  latitude and longitude and every level below 1 or above 6 it returns a code and no
  error: below 1 the code it returns for level 3, above 6 the code of level 6 followed
  by the digits of the further turns of its loop.
\<close>

theorem level_not_validated:
  assumes "level < 1 \<or> 6 < level"
  shows "(\<exists>c. latlon_to_meshcode lat lon level = Inr c)
    \<and> (level < 1 \<longrightarrow> latlon_to_meshcode lat lon level = latlon_to_meshcode lat lon 3)
    \<and> (6 < level \<longrightarrow> (\<exists>c ext. latlon_to_meshcode lat lon 6 = Inr c \<and> ext \<noteq> []
                            \<and> latlon_to_meshcode lat lon level = Inr (c @ ext)))"
proof (intro conjI impI)
  show "\<exists>c. latlon_to_meshcode lat lon level = Inr c"
    by (simp add: latlon_to_meshcode_def Let_def)
  show "latlon_to_meshcode lat lon level = latlon_to_meshcode lat lon 3" if "level < 1"
    using that by (simp add: latlon_to_meshcode_def Let_def)
  show "\<exists>c ext. latlon_to_meshcode lat lon 6 = Inr c \<and> ext \<noteq> []
          \<and> latlon_to_meshcode lat lon level = Inr (c @ ext)" if "6 < level"
  proof -
    define k where "k = nat (level - 7)"
    have k: "nat (level + 1 - 4) = 3 + Suc k"
      using that unfolding k_def by linarith
    have 6: "nat (6 + 1 - 4 :: int) = 3" by simp
    show ?thesis
      using that quad_digits_add [of 3 "Suc k"] quad_digits_nonempty [of k]
      unfolding latlon_to_meshcode_def Let_def quadrant_loop_digits k 6
      by (simp del: quad_digits.simps) metis
  qed
qed

theorem level_not_validated_witness:
  "((0::int) < 1 \<or> 6 < (0::int))
   \<and> (\<exists>c. latlon_to_meshcode 35.6813489 139.766029 0 = Inr c)
   \<and> latlon_to_meshcode 35.6813489 139.766029 0 = latlon_to_meshcode 35.6813489 139.766029 3
   \<and> ((8::int) < 1 \<or> 6 < (8::int))
   \<and> (\<exists>c ext. latlon_to_meshcode 35.6813489 139.766029 6 = Inr c \<and> ext \<noteq> []
               \<and> latlon_to_meshcode 35.6813489 139.766029 8 = Inr (c @ ext))"
proof -
  have h1: "(0::int) < 1 \<or> 6 < (0::int)" and h2: "(8::int) < 1 \<or> 6 < (8::int)"
    and a1: "(0::int) < 1" and a2: "(6::int) < 8"
    by simp_all
  show ?thesis
    using h1 h2 a1 a2 level_not_validated [OF h1, of "35.6813489" "139.766029"]
      level_not_validated [OF h2, of "35.6813489" "139.766029"] by blast
qed

text \<open>
  Claim C5 as stated fails: with the levels 0 and 7 the encoder returns a code.
\<close>

theorem level_not_validated_counterexample:
  "latlon_to_meshcode 35.6813489 139.766029 0 = Inr ''53394611''
   \<and> latlon_to_meshcode 35.6813489 139.766029 7 = Inr ''533946113411''"
  by code_simp

text \<open>
  Claim C10 (levels out of range), as amended. The encoder raises no error, whatever the
  level. For every point of the mesh range, a level below 1 gives exactly the code of 8
  characters of level 3, and a level above 6 gives a code of \<open>8 + (level - 3)\<close>
  characters, more than 11.
\<close>

theorem level_fallback:
  assumes "mesh_range lat lon"
  shows "(\<exists>c. latlon_to_meshcode lat lon level = Inr c)
    \<and> (level < 1 \<longrightarrow> (\<exists>c. latlon_to_meshcode lat lon level = Inr c
                          \<and> latlon_to_meshcode lat lon 3 = Inr c \<and> length c = 8))
    \<and> (6 < level \<longrightarrow> (\<exists>c. latlon_to_meshcode lat lon level = Inr c
                          \<and> int (length c) = 8 + (level - 3) \<and> 11 < length c))"
proof (intro conjI impI)
  show "\<exists>c. latlon_to_meshcode lat lon level = Inr c"
    by (simp add: latlon_to_meshcode_def Let_def)
  from encode_decode_cell [OF assms, of 3]
  obtain c3 where c3: "latlon_to_meshcode lat lon 3 = Inr c3" "length c3 = 8"
    by (auto simp: code_length_def)
  show "\<exists>c. latlon_to_meshcode lat lon level = Inr c
          \<and> latlon_to_meshcode lat lon 3 = Inr c \<and> length c = 8" if "level < 1"
  proof -
    have "latlon_to_meshcode lat lon level = latlon_to_meshcode lat lon 3"
      using that by (simp add: latlon_to_meshcode_def Let_def)
    then show ?thesis using c3 by simp
  qed
  show "\<exists>c. latlon_to_meshcode lat lon level = Inr c
          \<and> int (length c) = 8 + (level - 3) \<and> 11 < length c" if "6 < level"
  proof -
    have "1 \<le> level" using that by simp
    from encode_decode_cell [OF assms this]
    obtain c where c: "latlon_to_meshcode lat lon level = Inr c" "length c = code_length (nat level)"
      by blast
    have "3 < nat level" "int (nat level) = level"
      using that by simp_all
    then have "int (code_length (nat level)) = 8 + (level - 3)" "11 < code_length (nat level)"
      using that unfolding code_length_def by (simp_all, linarith+)
    then show ?thesis using c by simp
  qed
qed

theorem level_fallback_witness:
  "mesh_range 35.6813489 139.766029
   \<and> (\<exists>c. latlon_to_meshcode 35.6813489 139.766029 (-2) = Inr c
          \<and> latlon_to_meshcode 35.6813489 139.766029 3 = Inr c \<and> length c = 8)
   \<and> (\<exists>c. latlon_to_meshcode 35.6813489 139.766029 9 = Inr c
          \<and> int (length c) = 8 + (9 - 3) \<and> 11 < length c)"
proof -
  have h: "mesh_range 35.6813489 139.766029" by (simp add: mesh_range_def)
  show ?thesis
    using h level_fallback [OF h, of "-2"] level_fallback [OF h, of 9] by simp
qed

text \<open>
  Claim C10 as stated, for every latitude and longitude, fails on the lengths: at latitude
  0 the level-1 latitude index has one digit, so that the code of level 0 has 7 characters
  and the code of level 7 has 11.
\<close>

theorem level_fallback_counterexample:
  "latlon_to_meshcode 0 100 0 = Inr ''0000000'' \<and> latlon_to_meshcode 0 100 7 = Inr ''00000001111''"
  by code_simp

lemma quad_digits_snoc:
  fixes lat lon dla dlo :: real
  assumes "0 < dla" and "0 < dlo"
  shows "quad_digits (Suc j) (frac (lat / dla)) (frac (lon / dlo)) =
     quad_digits j (frac (lat / dla)) (frac (lon / dlo))
     @ [digit_char (nat (\<lfloor>frac (lat / (dla / 2 ^ j)) * 2\<rfloor> * 2
                          + \<lfloor>frac (lon / (dlo / 2 ^ j)) * 2\<rfloor> + 1))]"
  using assms
proof (induction j arbitrary: dla dlo)
  case 0
  show ?case
    using quad_digit(2) [OF 0, where lat = lat and lon = lon] by simp
next
  case (Suc j)
  define d where "d = nat (\<lfloor>frac (lat / dla) * 2\<rfloor> * 2 + \<lfloor>frac (lon / dlo) * 2\<rfloor> + 1)"
  note q = quad_digit(2) [OF Suc.prems, where lat = lat and lon = lon, folded d_def]
    quad_digit(4) [OF Suc.prems, where lat = lat]
    quad_digit(5) [OF Suc.prems, where lon = lon]
  have u: "quad_digits (Suc k) (frac (lat / dla)) (frac (lon / dlo)) =
      digit_char d # quad_digits k (frac (lat / (dla / 2))) (frac (lon / (dlo / 2)))" for k
    by (simp only: quad_digits.simps q) simp
  have h: "0 < dla / 2" "0 < dlo / 2"
    using Suc.prems by simp_all
  show ?case
    unfolding u [of "Suc j"] u [of j] Suc.IH [OF h] by simp
qed

lemma encode_quads:
  fixes lat lon :: real
  assumes "mesh_range lat lon" and "3 \<le> level"
  shows "latlon_to_meshcode lat lon level =
     Inr (code3 (lat * 1.5) (lon - 100.0)
          @ quad_digits (nat (level - 3)) (frac (lat / lat_step 3)) (frac (lon / lon_step 3)))"
proof -
  define x where "x = lat * 1.5"
  define y where "y = lon - 100.0"
  note g = level1_grid(1-4) [OF assms(1), folded x_def y_def]
  have enc: "latlon_to_meshcode lat lon level =
     Inr (if level = 1 then code1 x y else if level = 2 then code2 x y
          else if level = 3 then code3 x y
          else code3 x y @ quad_digits (nat (level + 1 - 4)) (frac (80 * x)) (frac (80 * y)))"
    unfolding x_def y_def by (rule encode_closed) (use g in \<open>simp_all add: x_def y_def\<close>)
  have s3: "lat / lat_step 3 = 80 * x" "lon / lon_step 3 = 80 * lon"
    by (simp_all add: lat_step_def lon_step_def subdivisions_values x_def)
  have f3: "frac (80 * x) = frac (lat / lat_step 3)" "frac (80 * y) = frac (lon / lon_step 3)"
    unfolding s3 y_def using frac_shift [of 80 lon] by simp_all
  have "nat (level + 1 - 4) = nat (level - 3)" by simp
  then show ?thesis
    using assms(2) unfolding x_def [symmetric] y_def [symmetric] enc f3
    by (cases "level = 3") simp_all
qed

text \<open>
  Claim C7 (quadrant mapping). For a point of the mesh range and a level of 4, 5 or 6,
  the code of the level is the code of the level before followed by the digit
  \<open>\<lfloor>rem_lat * 2\<rfloor> * 2 + \<lfloor>rem_lon * 2\<rfloor> + 1\<close>, where the remainders of the loop are
  the fractions of the parent cell that lie to the south and to the west of the point;
  the digit is one of 1, 2, 3 and 4. Decoding a code of at least 8 digits followed by one
  more digit adds half the height of the parent cell to the latitude of its south-west
  corner exactly when the digit is 3 or 4, and half its width to the longitude exactly
  when the digit is 2 or 4. The height and the width are positive, so that the digit 1
  leaves both as they are and the digit 4 increases both.
\<close>

theorem quadrant_mapping:
  assumes "mesh_range lat lon" and "level \<in> {4, 5, 6}"
    and "list_all is_digit p" and "8 \<le> length p" and "d < 10"
  shows "(let rem_lat = frac (lat / lat_step (nat (level - 1)));
              rem_lon = frac (lon / lon_step (nat (level - 1)));
              digit = \<lfloor>rem_lat * 2\<rfloor> * 2 + \<lfloor>rem_lon * 2\<rfloor> + 1
          in digit \<in> {1, 2, 3, 4}
             \<and> (\<exists>c. latlon_to_meshcode lat lon (level - 1) = Inr c
                    \<and> latlon_to_meshcode lat lon level = Inr (c @ str_int digit)))
    \<and> (\<exists>a b a' b'.
          meshcode_to_latlon (StrArg p) ''bbox'' = Inr (Dict (BBox a b a' b'))
        \<and> a < a' \<and> b < b'
        \<and> meshcode_to_latlon (StrArg (p @ [digit_char d])) ''sw'' =
            Inr (Dict (LatLon (a + (if d \<in> {3, 4} then (a' - a) / 2 else 0))
                              (b + (if d \<in> {2, 4} then (b' - b) / 2 else 0)))))"
proof (rule conjI)
  define j where "j = nat (level - 4)"
  have l: "4 \<le> level" "nat (level - 3) = Suc j" "nat (level - 1 - 3) = j" "nat (level - 1) = 3 + j"
    "3 \<le> level" "3 \<le> level - 1"
    using assms(2) unfolding j_def by auto
  define dg where "dg = \<lfloor>frac (lat / (lat_step 3 / 2 ^ j)) * 2\<rfloor> * 2
      + \<lfloor>frac (lon / (lon_step 3 / 2 ^ j)) * 2\<rfloor> + 1"
  have h: "0 < lat_step 3 / 2 ^ j" "0 < lon_step 3 / 2 ^ j"
    using steps(9,10) [of 3] by simp_all
  have "nat dg \<in> {1, 2, 3, 4}"
    unfolding dg_def by (rule quad_digit(1) [OF h])
  then have dg: "dg \<in> {1, 2, 3, 4}" "str_int dg = [digit_char (nat dg)]"
    by (auto simp: str_int_def str_nat_1)
  have sn: "quad_digits (Suc j) (frac (lat / lat_step 3)) (frac (lon / lon_step 3)) =
      quad_digits j (frac (lat / lat_step 3)) (frac (lon / lon_step 3)) @ [digit_char (nat dg)]"
    unfolding dg_def by (rule quad_digits_snoc [OF steps(9,10)])
  have "latlon_to_meshcode lat lon level =
      Inr (code3 (lat * 1.5) (lon - 100.0)
           @ quad_digits j (frac (lat / lat_step 3)) (frac (lon / lon_step 3)) @ str_int dg)"
    unfolding encode_quads [OF assms(1) l(5)] l(2) dg(2) sn by (rule refl)
  moreover have "latlon_to_meshcode lat lon (level - 1) =
      Inr (code3 (lat * 1.5) (lon - 100.0)
           @ quad_digits j (frac (lat / lat_step 3)) (frac (lon / lon_step 3)))"
    unfolding encode_quads [OF assms(1) l(6)] l(3) by (rule refl)
  ultimately show "let rem_lat = frac (lat / lat_step (nat (level - 1)));
              rem_lon = frac (lon / lon_step (nat (level - 1)));
              digit = \<lfloor>rem_lat * 2\<rfloor> * 2 + \<lfloor>rem_lon * 2\<rfloor> + 1
          in digit \<in> {1, 2, 3, 4}
             \<and> (\<exists>c. latlon_to_meshcode lat lon (level - 1) = Inr c
                    \<and> latlon_to_meshcode lat lon level = Inr (c @ str_int digit))"
    unfolding Let_def l(4) steps(7,8) dg_def [symmetric] using dg(1) by simp
next
  have ok: "code_ok p" "code_ok (p @ [digit_char d])"
    using assms(3,4,5) by (simp_all add: code_ok_def is_digit_digit_char)
  obtain la lo dla dlo where c: "decode_cell p = (la, lo, dla, dlo)"
    by (metis prod_cases4)
  have "deltas (decode_cell p) = (1 / 120 / 2 ^ (length p - 8), 1 / 80 / 2 ^ (length p - 8))"
    by (rule deltas_quads [OF assms(4)])
  then have pos: "0 < dla" "0 < dlo"
    by (simp_all add: c deltas_def)
  have "decode_cell (p @ [digit_char d]) = quadrant d (la, lo, dla, dlo)"
    using assms(4,5) by (simp add: decode_cell_append digit_val_digit_char c)
  then show "\<exists>a b a' b'.
          meshcode_to_latlon (StrArg p) ''bbox'' = Inr (Dict (BBox a b a' b'))
        \<and> a < a' \<and> b < b'
        \<and> meshcode_to_latlon (StrArg (p @ [digit_char d])) ''sw'' =
            Inr (Dict (LatLon (a + (if d \<in> {3, 4} then (a' - a) / 2 else 0))
                              (b + (if d \<in> {2, 4} then (b' - b) / 2 else 0))))"
    using ok pos by (simp add: scalar_cell valid_mode_def cell_coords_def c quadrant_def)
qed

theorem quadrant_mapping_witness:
  "(\<exists>c. latlon_to_meshcode 35.6813489 139.766029 3 = Inr c
        \<and> latlon_to_meshcode 35.6813489 139.766029 4 =
            Inr (c @ str_int (\<lfloor>frac (35.6813489 / lat_step 3) * 2\<rfloor> * 2
                              + \<lfloor>frac (139.766029 / lon_step 3) * 2\<rfloor> + 1)))
   \<and> (\<exists>a b a' b'.
          meshcode_to_latlon (StrArg ''53394611'') ''bbox'' = Inr (Dict (BBox a b a' b'))
        \<and> a < a' \<and> b < b'
        \<and> meshcode_to_latlon (StrArg ''533946113'') ''sw'' =
            Inr (Dict (LatLon (a + (a' - a) / 2) b)))"
proof -
  have h1: "mesh_range 35.6813489 139.766029" by (simp add: mesh_range_def)
  have h2: "(4::int) \<in> {4, 5, 6}" by simp
  have h3: "list_all is_digit ''53394611''" by (simp add: is_digit_def)
  have h4: "8 \<le> length ''53394611''" by simp
  have h5: "(3::nat) < 10" by simp
  have d: "''53394611'' @ [digit_char 3] = ''533946113''" by code_simp
  show ?thesis
    using quadrant_mapping [OF h1 h2 h3 h4 h5] unfolding d Let_def by simp
qed

section \<open>The codec in float64 arithmetic\<close>

subsection \<open>Rounding\<close>

lemma pow2_powr: "pow2 e = 2 powr (real_of_int e)"
proof (cases "0 \<le> e")
  case True
  then have "2 powr (real_of_int e) = 2 powr (real (nat e))" by simp
  also have "\<dots> = 2 ^ nat e" by (simp add: powr_realpow)
  finally show ?thesis using True by (simp add: pow2_def)
next
  case False
  then have "2 powr (real_of_int e) = 2 powr (- real (nat (- e)))" by simp
  also have "\<dots> = 1 / 2 ^ nat (- e)" by (simp add: powr_minus powr_realpow divide_simps)
  finally show ?thesis using False by (simp add: pow2_def)
qed

lemma pow2_pos: "0 < pow2 e"
  by (simp add: pow2_powr)

lemma pow2_add: "pow2 (a + b) = pow2 a * pow2 b"
  by (simp add: pow2_powr powr_add)

lemma pow2_mono: "a \<le> b \<Longrightarrow> pow2 a \<le> pow2 b"
  by (simp add: pow2_powr)

lemma pow2_less_iff: "pow2 a < pow2 b \<longleftrightarrow> a < b"
  by (simp add: pow2_powr)

lemma pow2_nat: "0 \<le> e \<Longrightarrow> pow2 e = real_of_int (2 ^ nat e)"
  by (simp add: pow2_def)

lemma expo_bounds:
  assumes "x \<noteq> 0"
  shows "pow2 (expo x) \<le> \<bar>x\<bar>" and "\<bar>x\<bar> < pow2 (expo x + 1)"
proof -
  define a where "a = \<bar>x\<bar>"
  have a: "0 < a" using assms by (simp add: a_def)
  have "pow2 (expo x) \<le> a \<and> a < pow2 (expo x + 1)"
  proof (cases "1 \<le> a")
    case True
    define n where "n = \<lfloor>a\<rfloor>"
    have n: "0 < n" "real_of_int n \<le> a" "a < real_of_int n + 1"
      using True unfolding n_def by linarith+
    define b where "b = bitlen n"
    from bitlen_bounds [OF n(1)]
    have bb: "2 ^ nat (b - 1) \<le> n" "n < 2 ^ nat b"
      by (simp_all add: b_def)
    have b1: "1 \<le> b"
      using n(1) by (simp add: b_def bitlen_alt_def)
    have e: "expo x = b - 1"
      using True by (simp add: expo_def a_def [symmetric] n_def [symmetric] b_def)
    have "(2::real) ^ nat (b - 1) \<le> real_of_int n"
      using of_int_le_iff [of "2 ^ nat (b - 1)" n, where ?'a = real] bb(1) by simp
    moreover have "pow2 (b - 1) = 2 ^ nat (b - 1)" "pow2 b = 2 ^ nat b"
      using b1 by (simp_all add: pow2_def)
    ultimately have 1: "pow2 (b - 1) \<le> a"
      using n(2) by linarith
    have "n + 1 \<le> 2 ^ nat b" using bb(2) by simp
    then have "real_of_int n + 1 \<le> (2::real) ^ nat b"
      using of_int_le_iff [of "n + 1" "2 ^ nat b", where ?'a = real] by simp
    then have 2: "a < pow2 b"
      using \<open>pow2 b = 2 ^ nat b\<close> n(3) by linarith
    show ?thesis using 1 2 by (simp add: e)
  next
    case False
    then have a1: "a < 1" by simp
    define n where "n = \<lceil>1 / a\<rceil> - 1"
    have "1 < 1 / a" using a a1 by simp
    then have n: "0 < n" "real_of_int n < 1 / a" "1 / a \<le> real_of_int n + 1"
      unfolding n_def by linarith+
    define b where "b = bitlen n"
    from bitlen_bounds [OF n(1)]
    have bb: "2 ^ nat (b - 1) \<le> n" "n < 2 ^ nat b"
      by (simp_all add: b_def)
    have b1: "1 \<le> b"
      using n(1) by (simp add: b_def bitlen_alt_def)
    have e: "expo x = - b"
      using False by (simp add: expo_def a_def [symmetric] n_def [symmetric] b_def)
    have "n + 1 \<le> 2 ^ nat b" using bb(2) by simp
    then have "real_of_int n + 1 \<le> (2::real) ^ nat b"
      using of_int_le_iff [of "n + 1" "2 ^ nat b", where ?'a = real] by simp
    then have "1 / a \<le> 2 ^ nat b" using n(3) by linarith
    then have "1 \<le> a * 2 ^ nat b" using a by (simp add: field_simps)
    then have 1: "pow2 (- b) \<le> a"
      using b1 by (simp add: pow2_def field_simps)
    have "(2::real) ^ nat (b - 1) \<le> real_of_int n"
      using of_int_le_iff [of "2 ^ nat (b - 1)" n, where ?'a = real] bb(1) by simp
    then have "2 ^ nat (b - 1) < 1 / a" using n(2) by linarith
    then have "a * 2 ^ nat (b - 1) < 1" using a by (simp add: field_simps)
    then have 2: "a < pow2 (- b + 1)"
      using b1 by (cases "b = 1") (simp_all add: pow2_def field_simps nat_diff_distrib)
    show ?thesis using 1 2 by (simp add: e)
  qed
  then show "pow2 (expo x) \<le> \<bar>x\<bar>" and "\<bar>x\<bar> < pow2 (expo x + 1)"
    by (simp_all add: a_def)
qed

lemma expo_less: "x \<noteq> 0 \<Longrightarrow> \<bar>x\<bar> < pow2 k \<Longrightarrow> expo x < k"
  using expo_bounds(1) [of x] pow2_less_iff [of "expo x" k] by linarith

lemma expo_ge: "pow2 k \<le> \<bar>x\<bar> \<Longrightarrow> k \<le> expo x"
proof -
  assume k: "pow2 k \<le> \<bar>x\<bar>"
  then have "x \<noteq> 0" using pow2_pos [of k] by auto
  then have "pow2 k < pow2 (expo x + 1)"
    using expo_bounds(2) [of x] k by linarith
  then show ?thesis by (simp add: pow2_less_iff)
qed

lemma round_even_close: "\<bar>real_of_int (round_even y) - y\<bar> \<le> 1 / 2"
  unfolding round_even_def Let_def by (auto simp: abs_le_iff; linarith)

lemma round_even_int: "round_even (real_of_int z) = z"
  by (simp add: round_even_def)

lemma fl_error_expo:
  assumes "x \<noteq> 0"
  shows "\<bar>fl x - x\<bar> \<le> pow2 (expo x - 53)"
proof -
  define e where "e = expo x - 52"
  define y where "y = x / pow2 e"
  have x: "x = y * pow2 e"
    using pow2_pos [of e] by (simp add: y_def)
  have "fl x = real_of_int (round_even y) * pow2 e"
    using assms by (simp add: fl_def Let_def e_def y_def)
  then have "fl x - x = (real_of_int (round_even y) - y) * pow2 e"
    using x by (simp add: algebra_simps)
  then have "\<bar>fl x - x\<bar> = \<bar>real_of_int (round_even y) - y\<bar> * pow2 e"
    using pow2_pos [of e] by (simp add: abs_mult)
  also have "\<dots> \<le> (1 / 2) * pow2 e"
    using round_even_close [of y] pow2_pos [of e] by (intro mult_right_mono) simp_all
  also have "\<dots> = pow2 (expo x - 53)"
    using pow2_add [of "-1" e] by (simp add: e_def pow2_def)
  finally show ?thesis .
qed

lemma fl_error:
  assumes "\<bar>x\<bar> < pow2 k"
  shows "\<bar>fl x - x\<bar> \<le> pow2 (k - 54)"
proof (cases "x = 0")
  case True
  then show ?thesis using pow2_pos [of "k - 54"] by (simp add: fl_def)
next
  case False
  have "expo x - 53 \<le> k - 54"
    using expo_less [OF False assms] by simp
  then show ?thesis
    using fl_error_expo [OF False] pow2_mono [of "expo x - 53" "k - 54"] by linarith
qed

lemma fl_exact:
  assumes "on_grid g x" and "\<bar>x\<bar> < pow2 (g + 53)"
  shows "fl x = x"
proof (cases "x = 0")
  case True
  then show ?thesis by (simp add: fl_def)
next
  case False
  define e where "e = expo x - 52"
  have eg: "e \<le> g"
    using expo_less [OF False assms(2)] by (simp add: e_def)
  obtain m :: int where m: "x = real_of_int m * pow2 g"
    using assms(1) by (auto simp: on_grid_def)
  have "pow2 g = pow2 (g - e) * pow2 e"
    using pow2_add [of "g - e" e] by simp
  also have "pow2 (g - e) = real_of_int (2 ^ nat (g - e))"
    using eg by (simp add: pow2_nat)
  finally have "x / pow2 e = real_of_int (m * 2 ^ nat (g - e))"
    using pow2_pos [of e] by (simp add: m)
  then have "round_even (x / pow2 e) = m * 2 ^ nat (g - e)"
    by (simp only: round_even_int)
  then have "fl x = real_of_int (m * 2 ^ nat (g - e)) * pow2 e"
    using False by (simp add: fl_def Let_def e_def)
  also have "\<dots> = x / pow2 e * pow2 e"
    using \<open>x / pow2 e = real_of_int (m * 2 ^ nat (g - e))\<close> by simp
  finally show ?thesis
    using pow2_pos [of e] by simp
qed

lemma fl_on_grid:
  assumes "pow2 j \<le> \<bar>x\<bar>"
  shows "on_grid (j - 52) (fl x)"
proof -
  have nz: "x \<noteq> 0" using assms pow2_pos [of j] by auto
  define e where "e = expo x - 52"
  have je: "j - 52 \<le> e"
    using expo_ge [OF assms] by (simp add: e_def)
  have "pow2 e = pow2 (e - (j - 52)) * pow2 (j - 52)"
    using pow2_add [of "e - (j - 52)" "j - 52"] by simp
  also have "pow2 (e - (j - 52)) = real_of_int (2 ^ nat (e - (j - 52)))"
    using je by (simp add: pow2_nat)
  finally have "fl x = real_of_int (round_even (x / pow2 e) * 2 ^ nat (e - (j - 52))) * pow2 (j - 52)"
    using nz by (simp add: fl_def Let_def e_def)
  then show ?thesis
    unfolding on_grid_def by blast
qed

lemma on_grid_int: "g \<le> 0 \<Longrightarrow> on_grid g (real_of_int z)"
proof -
  assume "g \<le> 0"
  then have "pow2 (- g) = real_of_int (2 ^ nat (- g))" by (simp add: pow2_nat)
  moreover have "pow2 (- g) * pow2 g = 1"
    using pow2_add [of "- g" g] by (simp add: pow2_def)
  ultimately have "real_of_int z = real_of_int (z * 2 ^ nat (- g)) * pow2 g"
    by (simp add: mult.assoc)
  then show ?thesis unfolding on_grid_def by blast
qed

lemma on_grid_diff: "on_grid g a \<Longrightarrow> on_grid g b \<Longrightarrow> on_grid g (a - b)"
  unfolding on_grid_def
proof -
  assume "\<exists>m. a = real_of_int m * pow2 g" "\<exists>m. b = real_of_int m * pow2 g"
  then obtain m n :: int where "a = real_of_int m * pow2 g" "b = real_of_int n * pow2 g"
    by blast
  then have "a - b = real_of_int (m - n) * pow2 g"
    by (simp add: algebra_simps)
  then show "\<exists>m. a - b = real_of_int m * pow2 g" by blast
qed

lemma on_grid_mult: "on_grid g a \<Longrightarrow> on_grid g (a * real_of_int n)"
  unfolding on_grid_def
proof -
  assume "\<exists>m. a = real_of_int m * pow2 g"
  then obtain m :: int where "a = real_of_int m * pow2 g" by blast
  then have "a * real_of_int n = real_of_int (m * n) * pow2 g"
    by (simp add: algebra_simps)
  then show "\<exists>m. a * real_of_int n = real_of_int m * pow2 g" by blast
qed

subsection \<open>The float64 encoder rounds once\<close>

lemma pow2_values: "pow2 4 = 16" "pow2 3 = 8" "pow2 7 = 128" "pow2 8 = 256" "pow2 0 = 1"
  by (simp_all add: pow2_def)

lemma exact_frac:
  assumes "on_grid (- 49) t" and "0 \<le> t"
  shows "fl (t - real_of_int (astype_int t)) = t - real_of_int (astype_int t)"
    and "on_grid (- 49) (t - real_of_int (astype_int t))"
    and "0 \<le> t - real_of_int (astype_int t)" and "t - real_of_int (astype_int t) < 1"
proof -
  have a: "astype_int t = \<lfloor>t\<rfloor>"
    using assms(2) by (simp add: astype_int_def)
  show r: "0 \<le> t - real_of_int (astype_int t)" "t - real_of_int (astype_int t) < 1"
    unfolding a by linarith+
  show g: "on_grid (- 49) (t - real_of_int (astype_int t))"
    by (intro on_grid_diff assms(1) on_grid_int) simp
  have "\<bar>t - real_of_int (astype_int t)\<bar> < pow2 (- 49 + 53)"
    using r by (simp add: pow2_values)
  then show "fl (t - real_of_int (astype_int t)) = t - real_of_int (astype_int t)"
    by (rule fl_exact [OF g])
qed

lemma exact_scale:
  assumes "on_grid (- 49) r" and "0 \<le> r" and "r < 1" and "0 \<le> n" and "n \<le> 10"
  shows "fl (r * real_of_int n) = r * real_of_int n"
    and "on_grid (- 49) (r * real_of_int n)" and "0 \<le> r * real_of_int n"
proof -
  show g: "on_grid (- 49) (r * real_of_int n)"
    by (rule on_grid_mult [OF assms(1)])
  show p: "0 \<le> r * real_of_int n"
    using assms(2,4) by simp
  have "r * real_of_int n \<le> 1 * real_of_int n"
    using assms(3,4) by (intro mult_right_mono) simp_all
  then have "\<bar>r * real_of_int n\<bar> < pow2 (- 49 + 53)"
    using p assms(5) by (simp add: pow2_values)
  then show "fl (r * real_of_int n) = r * real_of_int n"
    by (rule fl_exact [OF g])
qed

lemma quadrant_loop_f64_exact:
  assumes "on_grid (- 49) a" and "0 \<le> a" and "on_grid (- 49) b" and "0 \<le> b"
  shows "quadrant_loop_f64 k a b (astype_int a) (astype_int b) code
       = quadrant_loop k a b (astype_int a) (astype_int b) code"
  using assms
proof (induction k arbitrary: a b code)
  case 0
  show ?case by simp
next
  case (Suc k)
  note fa = exact_frac [OF Suc.prems(1,2)] and fb = exact_frac [OF Suc.prems(3,4)]
  have sa: "fl ((a - real_of_int (astype_int a)) * 2) = (a - real_of_int (astype_int a)) * 2"
    "on_grid (- 49) ((a - real_of_int (astype_int a)) * 2)" "0 \<le> (a - real_of_int (astype_int a)) * 2"
    using exact_scale [OF fa(2,3,4), of 2] by simp_all
  have sb: "fl ((b - real_of_int (astype_int b)) * 2) = (b - real_of_int (astype_int b)) * 2"
    "on_grid (- 49) ((b - real_of_int (astype_int b)) * 2)" "0 \<le> (b - real_of_int (astype_int b)) * 2"
    using exact_scale [OF fb(2,3,4), of 2] by simp_all
  show ?case
    unfolding quadrant_loop_f64.simps quadrant_loop.simps Let_def fa(1) fb(1) sa(1) sb(1)
    by (rule Suc.IH [OF sa(2,3) sb(2,3)])
qed

lemma latlon_to_meshcode_f64_exact:
  fixes lat lon :: real
  defines "X \<equiv> fl (lat * 1.5)" and "Y \<equiv> fl (lon - 100.0)"
  assumes "on_grid (- 49) X" and "0 \<le> X" and "on_grid (- 49) Y" and "0 \<le> Y"
  shows "latlon_to_meshcode_f64 lat lon level = latlon_to_meshcode (X / 1.5) (Y + 100.0) level"
proof -
  have xy: "X / 1.5 * 1.5 = X" "Y + 100.0 - 100.0 = Y"
    by simp_all
  note a1 = exact_frac [OF assms(3,4)] and b1 = exact_frac [OF assms(5,6)]
  define ra where "ra = X - real_of_int (astype_int X)"
  define rb where "rb = Y - real_of_int (astype_int Y)"
  have a2: "fl (ra * 8) = ra * 8" "on_grid (- 49) (ra * 8)" "0 \<le> ra * 8"
    using exact_scale [OF a1(2,3,4), of 8] by (simp_all add: ra_def)
  have b2: "fl (rb * 8) = rb * 8" "on_grid (- 49) (rb * 8)" "0 \<le> rb * 8"
    using exact_scale [OF b1(2,3,4), of 8] by (simp_all add: rb_def)
  note a3 = exact_frac [OF a2(2,3)] and b3 = exact_frac [OF b2(2,3)]
  define sa where "sa = ra * 8 - real_of_int (astype_int (ra * 8))"
  define sb where "sb = rb * 8 - real_of_int (astype_int (rb * 8))"
  have a4: "fl (sa * 10) = sa * 10" "on_grid (- 49) (sa * 10)" "0 \<le> sa * 10"
    using exact_scale [OF a3(2,3,4), of 10] by (simp_all add: sa_def)
  have b4: "fl (sb * 10) = sb * 10" "on_grid (- 49) (sb * 10)" "0 \<le> sb * 10"
    using exact_scale [OF b3(2,3,4), of 10] by (simp_all add: sb_def)
  note q = quadrant_loop_f64_exact [OF a4(2,3) b4(2,3)]
  have f: "fl ra = ra" "fl rb = rb" "fl sa = sa" "fl sb = sb"
    using a1(1) b1(1) a3(1) b3(1) by (simp_all add: ra_def rb_def sa_def sb_def)
  show ?thesis
    unfolding latlon_to_meshcode_f64_def latlon_to_meshcode_def Let_def xy
      X_def [symmetric] Y_def [symmetric]
      ra_def [symmetric] rb_def [symmetric] sa_def [symmetric] sb_def [symmetric]
      f a2(1) b2(1) a4(1) b4(1) q
    by (rule refl)
qed

subsection \<open>The float64 decoder on one code\<close>

lemma arrays_of_single:
  "arrays_of (\<lambda>_. (la, lo, dla, dlo)) [c] = \<lparr>lat_arr = [la], lon_arr = [lo], lat_delta = [dla], lon_delta = [dlo]\<rparr>"
  by (simp add: arrays_of_def)

lemma astype_num_slot:
  "list_all is_digit c \<Longrightarrow>
     astype_num (map (\<lambda>c. replace_empty (str_slice i (i + 1) c)) [c]) = Inr [slot i c]"
  using astype_num_slots [of "[c]" i "i + 1"] by (simp add: slot_def)

lemma level_block_f64_single:
  assumes "list_all is_digit c"
  shows "level_block_f64 n k i [c] (arrays_of (\<lambda>_. t) [c])
       = Inr (arrays_of (\<lambda>_. cell_sub_f64 n k i c t) [c])"
proof -
  obtain la lo dla dlo where t: "t = (la, lo, dla, dlo)"
    by (metis prod_cases4)
  have s: "astype_num (map (\<lambda>c. replace_empty (str_slice (i + 1) (i + 2) c)) [c])
      = Inr [slot (i + 1) c]"
    using astype_num_slot [OF assms, of "i + 1"] by (simp add: add.assoc)
  show ?thesis
    unfolding t arrays_of_single level_block_f64_def Let_def astype_num_slot [OF assms] s
    by (simp add: np_where_def cell_sub_f64_def arrays_of_def)
qed

lemma quadrant_step_f64_single:
  assumes "list_all is_digit c"
  shows "quadrant_step_f64 [c] i (arrays_of (\<lambda>_. t) [c])
       = Inr (arrays_of (\<lambda>_. cell_quad_f64 c i t) [c])"
proof -
  obtain la lo dla dlo where t: "t = (la, lo, dla, dlo)"
    by (metis prod_cases4)
  show ?thesis
    unfolding t arrays_of_single quadrant_step_f64_def Let_def astype_num_slot [OF assms]
    by (simp add: np_where_def cell_quad_f64_def quadrant_f64_def arrays_of_def)
qed

lemma quadrant_steps_f64_single:
  assumes "list_all is_digit c"
  shows "quadrant_steps_f64 [c] is (arrays_of (\<lambda>_. t) [c])
       = Inr (arrays_of (\<lambda>_. fold (cell_quad_f64 c) is t) [c])"
  by (induction "is" arbitrary: t) (simp_all add: quadrant_step_f64_single [OF assms])

lemma mode_output_f64_single:
  "mode_output_f64 mode (arrays_of (\<lambda>_. t) [c]) =
     (if valid_mode mode then Inr [cell_coords_f64 mode t] else Inl ValueError)"
  by (simp add: mode_output_f64_def arrays_of_def cell_coords_f64_def valid_mode_def split_beta)

lemma scalar_cell_f64:
  assumes "code_ok c"
  shows "meshcode_to_latlon_f64 (StrArg c) mode =
     (if valid_mode mode then Inr (Dict (cell_coords_f64 mode (decode_cell_f64 c)))
      else Inl ValueError)"
proof -
  have d: "list_all is_digit c"
    using assms by (simp add: code_ok_def)
  have p1: "astype_num (map (str_slice 0 2) [c]) = Inr [digits_val (str_slice 0 2 c)]"
    using astype_num_map [of "[c]" "str_slice 0 2"] code_ok_slices(1) [OF assms] by simp
  have p2: "astype_num (map (str_slice 2 4) [c]) = Inr [digits_val (str_slice 2 4 c)]"
    using astype_num_map [of "[c]" "str_slice 2 4"] code_ok_slices(2) [OF assms] by simp
  have st0: "\<lparr>lat_arr = map (\<lambda>m. fl (real m * fl (2.0 / 3.0))) [digits_val (str_slice 0 2 c)],
              lon_arr = map (\<lambda>m. fl (real m + 100.0)) [digits_val (str_slice 2 4 c)],
              lat_delta = map (\<lambda>_. fl (2.0 / 3.0)) [c], lon_delta = map (\<lambda>_. 1.0) [c]\<rparr>
             = arrays_of (\<lambda>_. cell_init_f64 c) [c]"
    by (simp add: arrays_of_def cell_init_f64_def)
  have m: "[8 ..< Max (set (map length [c]))] = [8 ..< length c]"
    by simp
  have k: "level_block_f64 n 8.0 i = level_block_f64 n 8 i"
    "level_block_f64 n 10.0 i = level_block_f64 n 10 i" for n i
    by simp_all
  have "meshcode_to_latlon_vectorized_f64 [c] mode
        = mode_output_f64 mode (arrays_of (\<lambda>_. decode_cell_f64 c) [c])"
    unfolding meshcode_to_latlon_vectorized_f64_def
    by (simp only: p1 p2 sum.case Let_def st0 k level_block_f64_single [OF d]
          quadrant_steps_f64_single [OF d] m decode_cell_f64_def list.distinct if_False)
  then show ?thesis
    by (simp add: meshcode_to_latlon_f64_def mode_output_f64_single)
qed

subsection \<open>The rounding errors of the float64 decoder\<close>

lemma fl_round:
  assumes "\<bar>x\<bar> < 256"
  shows "\<bar>fl x - x\<bar> \<le> rho"
proof -
  have "\<bar>x\<bar> < pow2 8" using assms by (simp add: pow2_def)
  from fl_error [OF this] show ?thesis by (simp add: pow2_def rho_def)
qed

lemma fl_close:
  assumes "\<bar>x - X\<bar> \<le> e" and "\<bar>x\<bar> < 256"
  shows "\<bar>fl x - X\<bar> \<le> e + rho"
  using fl_round [OF assms(2)] assms(1) by linarith

lemma fl_two_thirds: "\<bar>fl (2 / 3) - 2 / 3\<bar> \<le> rho / 256"
proof -
  have "\<bar>2 / 3 :: real\<bar> < pow2 0" by (simp add: pow2_def)
  from fl_error [OF this] show ?thesis by (simp add: pow2_def rho_def)
qed

lemma digits_val_le:
  assumes "list_all is_digit s"
  shows "length s \<le> 1 \<Longrightarrow> digits_val s \<le> 9" and "length s \<le> 2 \<Longrightarrow> digits_val s \<le> 99"
proof -
  have d: "digit_val ch \<le> 9" if "is_digit ch" for ch
    using that by (auto simp: is_digit_def digit_val_def)
  show "length s \<le> 1 \<Longrightarrow> digits_val s \<le> 9"
    using assms d by (cases s) (auto simp: digits_val_def)
  show "length s \<le> 2 \<Longrightarrow> digits_val s \<le> 99"
  proof (cases s)
    case Nil
    then show ?thesis by (simp add: digits_val_def)
  next
    case (Cons a r)
    assume "length s \<le> 2"
    then show ?thesis
      using assms d [of a] Cons
      by (cases r) (auto simp: digits_val_def dest!: d)
  qed
qed

lemma slot_le: "list_all is_digit c \<Longrightarrow> slot i c \<le> 9"
proof -
  assume d: "list_all is_digit c"
  have "list_all is_digit (replace_empty (str_slice i (i + 1) c))"
    using replace_empty_ok [OF slice_digits [OF d]] by simp
  moreover have "length (replace_empty (str_slice i (i + 1) c)) \<le> 1"
    by (simp add: replace_empty_def str_slice_def)
  ultimately show ?thesis
    unfolding slot_def by (rule digits_val_le(1))
qed

lemma rho_bounds: "0 < rho" "rho \<le> 1 / 1000"
  by (simp_all add: rho_def)

lemma axis_sub:
  fixes a a' c c' e k :: real and s :: nat
  assumes "\<bar>a - a'\<bar> \<le> e" and "\<bar>c - c'\<bar> \<le> e" and "0 \<le> a'" and "a' + 2 * c' \<le> 210"
    and "0 < c'" and "c' \<le> 1" and "0 \<le> e" and "e \<le> 1" and "8 \<le> k" and "k \<le> 10" and "s \<le> 9"
  shows "\<bar>fl (c / k) - c' / k\<bar> \<le> 3 * e + 11 * rho"
    and "\<bar>fl (a + fl (real s * fl (c / k))) - (a' + real s * (c' / k))\<bar> \<le> 3 * e + 11 * rho"
    and "0 \<le> real s * (c' / k)" and "real s * (c' / k) + 2 * (c' / k) \<le> 2 * c'"
    and "0 < c' / k" and "c' / k \<le> 1"
proof -
  note r = rho_bounds
  define q where "q = fl (c / k)"
  define q' where "q' = c' / k"
  have kp: "0 < k" using assms(9) by simp
  have q'b: "0 < q'" "q' \<le> c' / 8"
  proof -
    show "0 < q'" using assms(5) kp by (simp add: q'_def)
    show "q' \<le> c' / 8" unfolding q'_def using assms(5,9) by (intro frac_le) simp_all
  qed
  have "\<bar>c / k - q'\<bar> = \<bar>c - c'\<bar> / k"
    using kp by (simp add: q'_def diff_divide_distrib [symmetric])
  also have "\<dots> \<le> e / 8"
    using assms(2,7,9) by (intro frac_le) simp_all
  finally have 1: "\<bar>c / k - q'\<bar> \<le> e / 8" .
  have "\<bar>c / k\<bar> < 256" using 1 q'b assms(6,8) by linarith
  from fl_close [OF 1 this] have 2: "\<bar>q - q'\<bar> \<le> e / 8 + rho"
    by (simp add: q_def)
  define u where "u = real s * q"
  define u' where "u' = real s * q'"
  define p where "p = fl u"
  have s9: "real s \<le> 9" using assms(11) by simp
  have "\<bar>u - u'\<bar> = real s * \<bar>q - q'\<bar>"
    by (simp add: u_def u'_def right_diff_distrib [symmetric] abs_mult)
  also have "\<dots> \<le> 9 * (e / 8 + rho)"
    using s9 2 by (intro mult_mono) simp_all
  also have "\<dots> = 9 * e / 8 + 9 * rho" by simp
  finally have 3: "\<bar>u - u'\<bar> \<le> 9 * e / 8 + 9 * rho" .
  have sq: "0 \<le> u'" "u' \<le> 9 * c' / 8"
  proof -
    show "0 \<le> u'" using q'b by (simp add: u'_def)
    have "u' \<le> 9 * (c' / 8)"
      unfolding u'_def using s9 q'b by (intro mult_mono) simp_all
    then show "u' \<le> 9 * c' / 8" by simp
  qed
  have "\<bar>u\<bar> < 256" using 3 sq assms(6,8) r by linarith
  from fl_close [OF 3 this] have 4: "\<bar>p - u'\<bar> \<le> 9 * e / 8 + 9 * rho + rho"
    by (simp add: p_def)
  have 5: "\<bar>a + p - (a' + u')\<bar> \<le> e + 9 * e / 8 + 9 * rho + rho"
    using 4 assms(1) by linarith
  have "\<bar>a + p\<bar> < 256" using 5 sq assms(3,4,5,6,8) r by linarith
  from fl_close [OF 5 this] have 6: "\<bar>fl (a + p) - (a' + u')\<bar> \<le> 3 * e + 11 * rho"
    using assms(7) by linarith
  show "\<bar>fl (c / k) - c' / k\<bar> \<le> 3 * e + 11 * rho"
    using 2 assms(7) r unfolding q_def q'_def by linarith
  show "\<bar>fl (a + fl (real s * fl (c / k))) - (a' + real s * (c' / k))\<bar> \<le> 3 * e + 11 * rho"
    using 6 unfolding p_def u_def u'_def q_def q'_def .
  show "0 \<le> real s * (c' / k)" using sq unfolding u'_def q'_def by linarith
  show "real s * (c' / k) + 2 * (c' / k) \<le> 2 * c'"
    using sq q'b assms(5) unfolding u'_def q'_def by linarith
  show "0 < c' / k" using q'b unfolding q'_def by simp
  show "c' / k \<le> 1" using q'b assms(6) unfolding q'_def by linarith
qed

lemma axis_quad:
  fixes a a' c c' e :: real
  assumes "\<bar>a - a'\<bar> \<le> e" and "\<bar>c - c'\<bar> \<le> e" and "0 \<le> a'" and "a' + 2 * c' \<le> 210"
    and "0 < c'" and "c' \<le> 1" and "0 \<le> e" and "e \<le> 1"
  shows "\<bar>fl (c / 2) - c' / 2\<bar> \<le> 2 * e + 2 * rho"
    and "\<bar>fl (a + (if h then fl (c / 2) else 0)) - (a' + (if h then c' / 2 else 0))\<bar> \<le> 2 * e + 2 * rho"
    and "0 \<le> (if h then c' / 2 else 0)"
    and "(if h then c' / 2 else 0) + 2 * (c' / 2) \<le> 2 * c'"
    and "0 < c' / 2" and "c' / 2 \<le> 1"
proof -
  note r = rho_bounds
  have "\<bar>c / 2 - c' / 2\<bar> = \<bar>c - c'\<bar> / 2"
    by (simp add: diff_divide_distrib [symmetric])
  then have 1: "\<bar>c / 2 - c' / 2\<bar> \<le> e / 2" using assms(2) by linarith
  have "\<bar>c / 2\<bar> < 256" using 1 assms(5,6,8) by linarith
  from fl_close [OF 1 this] have 2: "\<bar>fl (c / 2) - c' / 2\<bar> \<le> e / 2 + rho" .
  define p where "p = (if h then fl (c / 2) else 0)"
  define p' where "p' = (if h then c' / 2 else 0)"
  have 3: "\<bar>p - p'\<bar> \<le> e / 2 + rho" and p': "0 \<le> p'" "p' \<le> c' / 2"
    using 2 assms(5,7) r by (simp_all add: p_def p'_def)
  have 4: "\<bar>a + p - (a' + p')\<bar> \<le> e + (e / 2 + rho)" using 3 assms(1) by linarith
  have "\<bar>a + p\<bar> < 256" using 4 p' assms(3,4,5,6,8) r by linarith
  from fl_close [OF 4 this] have 5: "\<bar>fl (a + p) - (a' + p')\<bar> \<le> 2 * e + 2 * rho"
    using assms(7) by linarith
  show "\<bar>fl (c / 2) - c' / 2\<bar> \<le> 2 * e + 2 * rho" using 2 assms(7) r by linarith
  show "\<bar>fl (a + (if h then fl (c / 2) else 0)) - (a' + (if h then c' / 2 else 0))\<bar> \<le> 2 * e + 2 * rho"
    using 5 unfolding p_def p'_def .
  show "0 \<le> (if h then c' / 2 else 0)" using p' unfolding p'_def by linarith
  show "(if h then c' / 2 else 0) + 2 * (c' / 2) \<le> 2 * c'"
    using p' assms(5) unfolding p'_def by linarith
  show "0 < c' / 2" using assms(5) by simp
  show "c' / 2 \<le> 1" using assms(5,6) by simp
qed

lemma axis_out:
  fixes a a' c c' e :: real
  assumes "\<bar>a - a'\<bar> \<le> e" and "\<bar>c - c'\<bar> \<le> e" and "0 \<le> a'" and "a' + 2 * c' \<le> 210"
    and "0 < c'" and "c' \<le> 1" and "0 \<le> e" and "e \<le> 1"
  shows "\<bar>fl (a + c) - (a' + c')\<bar> \<le> 2 * e + rho"
proof -
  have 1: "\<bar>a + c - (a' + c')\<bar> \<le> e + e" using assms(1,2) by linarith
  have "\<bar>a + c\<bar> < 256" using 1 assms(3,4,5,6,8) by linarith
  from fl_close [OF 1 this] show ?thesis by simp
qed


lemma close_mono: "close e s t \<Longrightarrow> e \<le> e' \<Longrightarrow> close e' s t"
  by (auto simp: close_def split: prod.splits)

lemma slice_length: "length (str_slice i (i + n) c) \<le> n"
  by (simp add: str_slice_def)

lemma index_le:
  assumes "list_all is_digit c"
  shows "digits_val (str_slice 0 2 c) \<le> 99" and "digits_val (str_slice 2 4 c) \<le> 99"
proof -
  have "length (str_slice 0 2 c) \<le> 2" "length (str_slice 2 4 c) \<le> 2"
    by (simp_all add: str_slice_def)
  then show "digits_val (str_slice 0 2 c) \<le> 99" and "digits_val (str_slice 2 4 c) \<le> 99"
    using digits_val_le(2) [OF slice_digits [OF assms]] by blast+
qed

lemma cell_init_close:
  assumes "list_all is_digit c"
  shows "close (2 * rho) (cell_init_f64 c) (cell_init c)" and "bounded_cell (cell_init c)"
proof -
  note r = rho_bounds
  define m where "m = real (digits_val (str_slice 0 2 c))"
  define m' where "m' = real (digits_val (str_slice 2 4 c))"
  have m: "0 \<le> m" "m \<le> 99" "0 \<le> m'" "m' \<le> 99"
    using index_le [OF assms] by (simp_all add: m_def m'_def)
  define u where "u = m * fl (2 / 3)"
  define u' where "u' = m * (2 / 3)"
  have "\<bar>u - u'\<bar> = m * \<bar>fl (2 / 3) - 2 / 3\<bar>"
    using m(1) unfolding u_def u'_def by (simp only: right_diff_distrib [symmetric] abs_mult abs_of_nonneg)
  also have "\<dots> \<le> 99 * (rho / 256)"
    using m fl_two_thirds by (intro mult_mono) simp_all
  also have "\<dots> \<le> rho" using r by simp
  finally have 1: "\<bar>u - u'\<bar> \<le> rho" .
  have u': "0 \<le> u'" "u' \<le> 66" using m by (simp_all add: u'_def)
  have "\<bar>u\<bar> < 256" using 1 u' r by linarith
  from fl_close [OF 1 this] have 2: "\<bar>fl u - u'\<bar> \<le> 2 * rho" by simp
  have "\<bar>m' + 100\<bar> < 256" using m by linarith
  from fl_round [OF this] have 3: "\<bar>fl (m' + 100) - (m' + 100)\<bar> \<le> 2 * rho"
    using r by linarith
  have 4: "\<bar>fl (2 / 3) - 2 / 3\<bar> \<le> 2 * rho" using fl_two_thirds r by linarith
  show "close (2 * rho) (cell_init_f64 c) (cell_init c)"
    using 2 3 4 r unfolding close_def cell_init_f64_def cell_init_def u_def u'_def m_def m'_def
    by simp
  show "bounded_cell (cell_init c)"
    using m u' unfolding bounded_cell_def cell_init_def u'_def m_def m'_def by simp
qed

lemma cell_sub_close:
  assumes "close e s t" and "bounded_cell t" and "0 \<le> e" and "e \<le> 1"
    and "8 \<le> k" and "k \<le> 10" and "list_all is_digit c"
  shows "close (3 * e + 11 * rho) (cell_sub_f64 n k i c s) (cell_sub n k i c t)"
    and "bounded_cell (cell_sub n k i c t)"
proof -
  note r = rho_bounds
  obtain a b x y where s: "s = (a, b, x, y)" by (cases s) auto
  obtain a' b' x' y' where t: "t = (a', b', x', y')" by (cases t) auto
  have cl: "\<bar>a - a'\<bar> \<le> e" "\<bar>b - b'\<bar> \<le> e" "\<bar>x - x'\<bar> \<le> e" "\<bar>y - y'\<bar> \<le> e"
    using assms(1) by (simp_all add: close_def s t)
  have bd: "0 \<le> a'" "a' + 2 * x' \<le> 70" "100 \<le> b'" "b' + 2 * y' \<le> 210"
    "0 < x'" "x' \<le> 1" "0 < y'" "y' \<le> 1"
    using assms(2) by (simp_all add: bounded_cell_def t)
  have bd': "a' + 2 * x' \<le> 210" "0 \<le> b'" using bd by linarith+
  note la = axis_sub [OF cl(1) cl(3) bd(1) bd'(1) bd(5,6) assms(3,4,5,6) slot_le [OF assms(7), of i]]
  note lo = axis_sub [OF cl(2) cl(4) bd'(2) bd(4) bd(7,8) assms(3,4,5,6) slot_le [OF assms(7), of "i + 1"]]
  have e': "e \<le> 3 * e + 11 * rho" using assms(3) r by linarith
  show "close (3 * e + 11 * rho) (cell_sub_f64 n k i c s) (cell_sub n k i c t)"
  proof (cases "n \<le> length c")
    case True
    then show ?thesis
      using la(1,2) lo(1,2) by (simp add: close_def cell_sub_f64_def cell_sub_def s t)
  next
    case False
    then show ?thesis
      using close_mono [OF assms(1) e'] by (simp add: cell_sub_f64_def cell_sub_def s t)
  qed
  show "bounded_cell (cell_sub n k i c t)"
  proof (cases "n \<le> length c")
    case True
    have "0 \<le> a' + real (slot i c) * (x' / k)"
      "a' + real (slot i c) * (x' / k) + 2 * (x' / k) \<le> 70"
      "100 \<le> b' + real (slot (i + 1) c) * (y' / k)"
      "b' + real (slot (i + 1) c) * (y' / k) + 2 * (y' / k) \<le> 210"
      using la(3,4) lo(3,4) bd by linarith+
    then show ?thesis
      using True la(5,6) lo(5,6) by (simp add: bounded_cell_def cell_sub_def t)
  next
    case False
    then show ?thesis using assms(2) by (simp add: cell_sub_def t)
  qed
qed

lemma quadrant_close:
  assumes "close e s t" and "bounded_cell t" and "0 \<le> e" and "e \<le> 1"
  shows "close (2 * e + 2 * rho) (quadrant_f64 d s) (quadrant d t)"
    and "bounded_cell (quadrant d t)"
proof -
  obtain a b x y where s: "s = (a, b, x, y)" by (cases s) auto
  obtain a' b' x' y' where t: "t = (a', b', x', y')" by (cases t) auto
  have cl: "\<bar>a - a'\<bar> \<le> e" "\<bar>b - b'\<bar> \<le> e" "\<bar>x - x'\<bar> \<le> e" "\<bar>y - y'\<bar> \<le> e"
    using assms(1) by (simp_all add: close_def s t)
  have bd: "0 \<le> a'" "a' + 2 * x' \<le> 70" "100 \<le> b'" "b' + 2 * y' \<le> 210"
    "0 < x'" "x' \<le> 1" "0 < y'" "y' \<le> 1"
    using assms(2) by (simp_all add: bounded_cell_def t)
  have bd': "a' + 2 * x' \<le> 210" "0 \<le> b'" using bd by linarith+
  note la = axis_quad(1) [OF cl(1) cl(3) bd(1) bd'(1) bd(5,6) assms(3,4)]
    axis_quad(2-4) [OF cl(1) cl(3) bd(1) bd'(1) bd(5,6) assms(3,4), of "d \<in> {3, 4}"]
    axis_quad(5-6) [OF cl(1) cl(3) bd(1) bd'(1) bd(5,6) assms(3,4)]
  note lo = axis_quad(1) [OF cl(2) cl(4) bd'(2) bd(4) bd(7,8) assms(3,4)]
    axis_quad(2-4) [OF cl(2) cl(4) bd'(2) bd(4) bd(7,8) assms(3,4), of "d \<in> {2, 4}"]
    axis_quad(5-6) [OF cl(2) cl(4) bd'(2) bd(4) bd(7,8) assms(3,4)]
  show "close (2 * e + 2 * rho) (quadrant_f64 d s) (quadrant d t)"
    using la(1,2) lo(1,2) unfolding close_def quadrant_f64_def quadrant_def s t
    by (simp only: prod.case)
  have "0 \<le> a' + (if d \<in> {3, 4} then x' / 2 else 0)"
    "a' + (if d \<in> {3, 4} then x' / 2 else 0) + 2 * (x' / 2) \<le> 70"
    "100 \<le> b' + (if d \<in> {2, 4} then y' / 2 else 0)"
    "b' + (if d \<in> {2, 4} then y' / 2 else 0) + 2 * (y' / 2) \<le> 210"
    using la(3,4) lo(3,4) bd by linarith+
  then show "bounded_cell (quadrant d t)"
    using la(5,6) lo(5,6) unfolding bounded_cell_def quadrant_def t
    by (simp only: prod.case)
qed

lemma fold_quad_close:
  "close e s t \<Longrightarrow> bounded_cell t \<Longrightarrow> 0 \<le> e \<Longrightarrow> 2 ^ length js * (e + 2 * rho) \<le> 1 \<Longrightarrow>
     close (2 ^ length js * (e + 2 * rho)) (fold (cell_quad_f64 c) js s) (fold (cell_quad c) js t)
     \<and> bounded_cell (fold (cell_quad c) js t)"
proof (induction js arbitrary: s t e)
  case Nil
  have "e \<le> e + 2 * rho" using rho_bounds by linarith
  from close_mono [OF Nil(1) this] Nil(2) show ?case by simp
next
  case (Cons j js)
  note r = rho_bounds
  define w :: real where "w = 2 ^ length js"
  have w: "1 \<le> w" by (simp add: w_def)
  define z where "z = 2 * e + 2 * rho + 2 * rho"
  have le: "w * z \<le> 1"
    using Cons.prems(4) by (simp add: w_def z_def algebra_simps)
  have z: "0 \<le> z" "e \<le> z" using Cons.prems(3) r unfolding z_def by linarith+
  have "1 * z \<le> w * z"
    using w z(1) by (intro mult_right_mono) simp_all
  then have e1: "e \<le> 1" using le z(2) by linarith
  have e2: "0 \<le> 2 * e + 2 * rho" "e \<le> 2 * e + 2 * rho" using Cons.prems(3) r by linarith+
  have st: "close (2 * e + 2 * rho) (cell_quad_f64 c j s) (cell_quad c j t)
      \<and> bounded_cell (cell_quad c j t)"
    using quadrant_close [OF Cons.prems(1,2,3) e1] close_mono [OF Cons.prems(1) e2(2)] Cons.prems(2)
    by (simp add: cell_quad_f64_def cell_quad_def)
  from Cons.IH [OF conjunct1 [OF st] conjunct2 [OF st] e2(1) le [unfolded w_def z_def]]
  show ?case by (simp add: w_def algebra_simps)
qed

lemma decode_close:
  assumes "code_ok c" and "length c \<le> 11"
  shows "close (512 * rho) (decode_cell_f64 c) (decode_cell c)"
    and "bounded_cell (decode_cell c)"
proof -
  note r = rho_bounds
  have d: "list_all is_digit c" using assms(1) by (simp add: code_ok_def)
  note i = cell_init_close [OF d]
  have r0: "0 \<le> 2 * rho" "2 * rho \<le> 1" using r by linarith+
  note s2 = cell_sub_close [OF i r0 _ _ d, of 8 6 4, simplified]
  have r2: "0 \<le> 17 * rho" "17 * rho \<le> 1" using r by linarith+
  note s3 = cell_sub_close [OF s2 r2 _ _ d, of 10 8 6, simplified]
  define js where "js = [8 ..< length c]"
  have "length js \<le> 3" using assms(2) by (simp add: js_def)
  then have "(2::real) ^ length js \<le> 2 ^ 3" by (intro power_increasing) simp_all
  then have w: "(2::real) ^ length js \<le> 8" by simp
  have r3: "0 \<le> 62 * rho" using r by linarith
  have "2 ^ length js * (62 * rho + 2 * rho) \<le> 8 * (62 * rho + 2 * rho)"
    using w r by (intro mult_right_mono) simp_all
  then have le: "2 ^ length js * (62 * rho + 2 * rho) \<le> 512 * rho" by simp
  then have le1: "2 ^ length js * (62 * rho + 2 * rho) \<le> 1" using r by linarith
  from fold_quad_close [OF s3 r3 le1, of c]
  show "close (512 * rho) (decode_cell_f64 c) (decode_cell c)"
    and "bounded_cell (decode_cell c)"
    using le unfolding decode_cell_f64_def decode_cell_def js_def
    by (blast intro: close_mono)+
qed

end
